theory Spec2Isabelle
  imports Complex_Main "HOL-Library.Sublist" "HOL-Library.Log_Nat"
begin

section \<open>Storefront cart and pricing engine (src/src/App.js)\<close>

text \<open>
  A shallow embedding of the price rule \<open>getCustomPrice\<close>, the cart operations
  \<open>addToCart\<close>, \<open>updateQty\<close>, \<open>removeFromCart\<close>, the cart total and the checkout
  handler \<open>submitOrder\<close> of \<open>App.js\<close>.

  JavaScript numbers are IEEE 754 binary64 values. A finite one is modelled by the
  rational it denotes, and the operators \<open>+\<close> and \<open>*\<close> round the exact result to the
  nearest double, ties to even, overflowing to an infinity. The two zeros are one
  value: no operator of the source tells them apart. JavaScript strings are
  modelled as \<open>string\<close>, with \<open>.length\<close> as \<open>length\<close>. The React state cell \<open>cart\<close> is
  passed explicitly: each handler takes the cart of the current render and returns the
  array it hands to \<open>setCart\<close>.
\<close>

subsection \<open>Numbers\<close>

datatype jsnum = Fin rat | PInf | NInf | NaN

text \<open>For \<open>x > 0\<close>, the exponent \<open>e\<close> with \<open>2\<^sup>e \<le> x < 2\<^sup>e\<^sup>+\<^sup>1\<close>.\<close>

definition flog2 :: "rat \<Rightarrow> int" where
  "flog2 x = (let (a, b) = quotient_of x; e = bitlen a - bitlen b
              in if 2 powi e \<le> x then e else e - 1)"

text \<open>The nearest integer, the even one of the two when they are equally near.\<close>

definition round_even :: "rat \<Rightarrow> int" where
  "round_even q = (let f = \<lfloor>q\<rfloor>; d = q - of_int f
                   in if d < 1 / 2 then f else if 1 / 2 < d then f + 1
                      else if even f then f else f + 1)"

text \<open>
  Rounding to binary64: 53 significant bits, so the spacing of the doubles around \<open>x\<close>
  is \<open>2\<close> to the power \<open>flog2 \<bar>x\<bar> - 52\<close>, and \<open>2\<close> to the power \<open>-1074\<close> below the
  smallest normal number; a result of magnitude \<open>2\<^sup>1\<^sup>0\<^sup>2\<^sup>4\<close> or more is an
  infinity.
\<close>

definition round64 :: "rat \<Rightarrow> jsnum" where
  "round64 x =
     (if x = 0 then Fin 0
      else let u = 2 powi (max (flog2 \<bar>x\<bar>) (- 1022) - 52);
               y = of_int (round_even (x / u)) * u
           in if 2 ^ 1024 \<le> \<bar>y\<bar> then (if 0 < x then PInf else NInf) else Fin y)"

text \<open>
  The finite doubles, normal and subnormal: an integer significand of less than 53
  bits, scaled by a power of two in the exponent range.
\<close>

definition is_double :: "rat \<Rightarrow> bool" where
  "is_double d \<longleftrightarrow>
     (\<exists>m e. d = of_int m * 2 powi e \<and> \<bar>m\<bar> < 2 ^ 53 \<and> - 1074 \<le> e \<and> e \<le> 971)"

text \<open>\<open>a + b\<close>\<close>

fun js_add :: "jsnum \<Rightarrow> jsnum \<Rightarrow> jsnum" where
  "js_add (Fin a) (Fin b) = round64 (a + b)"
| "js_add NaN _ = NaN"
| "js_add _ NaN = NaN"
| "js_add PInf NInf = NaN"
| "js_add NInf PInf = NaN"
| "js_add PInf _ = PInf"
| "js_add _ PInf = PInf"
| "js_add NInf _ = NInf"
| "js_add _ NInf = NInf"

text \<open>\<open>a * b\<close>\<close>

fun js_mul :: "jsnum \<Rightarrow> jsnum \<Rightarrow> jsnum" where
  "js_mul (Fin a) (Fin b) = round64 (a * b)"
| "js_mul NaN _ = NaN"
| "js_mul _ NaN = NaN"
| "js_mul (Fin a) PInf = (if a = 0 then NaN else if 0 < a then PInf else NInf)"
| "js_mul (Fin a) NInf = (if a = 0 then NaN else if 0 < a then NInf else PInf)"
| "js_mul PInf (Fin b) = (if b = 0 then NaN else if 0 < b then PInf else NInf)"
| "js_mul NInf (Fin b) = (if b = 0 then NaN else if 0 < b then NInf else PInf)"
| "js_mul PInf PInf = PInf"
| "js_mul PInf NInf = NInf"
| "js_mul NInf PInf = NInf"
| "js_mul NInf NInf = PInf"

text \<open>Truncation towards zero, the \<open>truncate\<close> of the language definition.\<close>

definition trunc :: "rat \<Rightarrow> int" where
  "trunc x = (if 0 \<le> x then \<lfloor>x\<rfloor> else \<lceil>x\<rceil>)"

text \<open>
  \<open>n % d\<close>: for finite \<open>n\<close> and \<open>d \<noteq> 0\<close> it is \<open>n - d * q\<close> where \<open>q\<close> is the quotient
  \<open>n / d\<close> truncated towards zero, so the result takes the sign of the dividend. The
  remainder of a double is a double, so nothing is rounded here.
\<close>

fun js_rem :: "jsnum \<Rightarrow> jsnum \<Rightarrow> jsnum" where
  "js_rem (Fin n) (Fin d) = (if d = 0 then NaN else Fin (n - d * of_int (trunc (n / d))))"
| "js_rem (Fin n) PInf = Fin n"
| "js_rem (Fin n) NInf = Fin n"
| "js_rem _ _ = NaN"

text \<open>The rational a finite number denotes (0 for the others).\<close>

fun fin_value :: "jsnum \<Rightarrow> rat" where
  "fin_value (Fin x) = x"
| "fin_value _ = 0"

subsection \<open>Strings\<close>

text \<open>
  \<open>s.includes(sub)\<close>: the search visits the positions of \<open>s\<close> from the left and compares
  the \<open>length sub\<close> characters found there with \<open>sub\<close>.
\<close>

fun includes_str :: "string \<Rightarrow> string \<Rightarrow> bool" where
  "includes_str [] sub = (sub = [])"
| "includes_str (c # cs) sub = (take (length sub) (c # cs) = sub \<or> includes_str cs sub)"

text \<open>\<open>w\<close> occurs in \<open>s\<close> as a contiguous substring.\<close>

abbreviation contains :: "string \<Rightarrow> string \<Rightarrow> bool" where
  "contains s w \<equiv> \<exists>pre suf. s = pre @ w @ suf"

subsection \<open>Catalog items and cart lines\<close>

record product =
  item_id :: int
  title :: string
  price :: jsnum
  description :: string
  category :: string
  image_url :: string
  item_size :: "string option"

text \<open>A cart line is the product object spread into a new object, plus \<open>qty\<close>.\<close>

record cart_line = product +
  qty :: jsnum

type_synonym cart = "cart_line list"

text \<open>\<open>{ ...product, qty: q }\<close>\<close>

definition spread_qty :: "product \<Rightarrow> jsnum \<Rightarrow> cart_line" where
  "spread_qty product q = product.extend product (cart_line.fields q)"

subsection \<open>Price logic\<close>

definition getCustomPrice :: "'a product_scheme \<Rightarrow> jsnum" where
  "getCustomPrice product =
     (let base = price product; category = category product in
      if includes_str category ''clothing'' then js_add (Fin 200) (js_rem base (Fin 100))
      else if includes_str category ''electronics'' then js_add (Fin 20000) (js_mul base (Fin 100))
      else if includes_str category ''jewelery'' then js_add (Fin 5000) (js_mul base (Fin 200))
      else js_add (Fin 1000) (js_mul base (Fin 50)))"

text \<open>
  The sum \<open>c + r\<close> of a finite \<open>c\<close> and the result \<open>r\<close> of a product, written out.
\<close>

abbreviation plus_rounded :: "rat \<Rightarrow> jsnum \<Rightarrow> jsnum" where
  "plus_rounded c r \<equiv>
     (case r of Fin y \<Rightarrow> round64 (c + y) | PInf \<Rightarrow> PInf | NInf \<Rightarrow> NInf | NaN \<Rightarrow> NaN)"

subsection \<open>Cart store\<close>

definition addToCart :: "product \<Rightarrow> cart \<Rightarrow> cart" where
  "addToCart product cart =
     (case find (\<lambda>i. item_id i = item_id product) cart of
        Some found \<Rightarrow>
          map (\<lambda>i. if item_id i = item_id product then i\<lparr>qty := js_add (qty i) (Fin 1)\<rparr> else i)
            cart
      | None \<Rightarrow> cart @ [spread_qty product (Fin 1)])"

definition updateQty :: "int \<Rightarrow> jsnum \<Rightarrow> cart \<Rightarrow> cart" where
  "updateQty i q cart = map (\<lambda>l. if item_id l = i then l\<lparr>qty := q\<rparr> else l) cart"

definition removeFromCart :: "int \<Rightarrow> cart \<Rightarrow> cart" where
  "removeFromCart i cart = filter (\<lambda>l. item_id l \<noteq> i) cart"

text \<open>\<open>cart.reduce((s, i) => s + getCustomPrice(i) * i.qty, 0)\<close>\<close>

definition total :: "cart \<Rightarrow> jsnum" where
  "total cart = foldl (\<lambda>s i. js_add s (js_mul (getCustomPrice i) (qty i))) (Fin 0) cart"

text \<open>The calls a session can make on the cart store, and a run of them.\<close>

datatype cart_op = Add product | Update int jsnum | Remove int

fun apply_op :: "cart \<Rightarrow> cart_op \<Rightarrow> cart" where
  "apply_op cart (Add p) = addToCart p cart"
| "apply_op cart (Update i q) = updateQty i q cart"
| "apply_op cart (Remove i) = removeFromCart i cart"

definition run_ops :: "cart \<Rightarrow> cart_op list \<Rightarrow> cart" where
  "run_ops cart ops = foldl apply_op cart ops"

definition unique_ids :: "cart \<Rightarrow> bool" where
  "unique_ids cart = distinct (map item_id cart)"

subsection \<open>Checkout\<close>

record shipping_form =
  name :: string
  email :: string
  address :: string

record card_fields =
  number :: string
  expiry :: string
  cvv :: string

text \<open>
  \<open>submitOrder\<close> shows one \<open>alert\<close> and returns. The result is the text of that alert:
  \<open>Inl\<close> for the alerts followed by the early \<open>return\<close>, \<open>Inr\<close> for the final one.
  \<open>!s\<close> on a string is \<open>s = []\<close>.
\<close>

definition submitOrder ::
  "shipping_form \<Rightarrow> cart \<Rightarrow> string \<Rightarrow> string \<Rightarrow> card_fields \<Rightarrow> string + string" where
  "submitOrder form cart payment upi crd =
     (if name form = [] \<or> email form = [] \<or> address form = [] then
        Inl ''Please fill all address details''
      else if \<not> includes_str (email form) ''@'' then
        Inl ''Invalid email''
      else if length cart = 0 then
        Inl ''Cart is empty''
      else if payment = ''upi'' \<and> length upi < 5 then
        Inl ''Enter valid UPI ID''
      else if payment = ''card'' \<and>
              (length (number crd) < 12 \<or> expiry crd = [] \<or> length (cvv crd) < 3) then
        Inl ''Enter valid card details''
      else
        Inr (if payment = ''cod'' then ''Order placed successfully (Cash on Delivery)''
             else ''Payment successful! Order placed''))"

subsection \<open>Concrete inputs\<close>

definition negative_price_shirt :: product where
  "negative_price_shirt =
     \<lparr>item_id = 7, title = ''Shirt'', price = Fin (- 50), description = [],
      category = ''clothing'', image_url = [], item_size = Some ''M''\<rparr>"

text \<open>The price is the double written \<open>22.3\<close>.\<close>

definition fractional_price_shirt :: product where
  "fractional_price_shirt =
     \<lparr>item_id = 2, title = ''Slim Fit T-Shirt'',
      price = Fin (6276891980647629 / 281474976710656), description = [],
      category = ''men's clothing'', image_url = [], item_size = Some ''L''\<rparr>"

text \<open>The price is the largest double below 100.\<close>

definition near_hundred_shirt :: product where
  "near_hundred_shirt =
     \<lparr>item_id = 4, title = ''Shirt'', price = Fin (100 - 1 / 2 ^ 46), description = [],
      category = ''clothing'', image_url = [], item_size = Some ''S''\<rparr>"

definition top_price_tv :: product where
  "top_price_tv =
     \<lparr>item_id = 11, title = ''TV'', price = Fin 9007199254740991, description = [],
      category = ''electronics'', image_url = [], item_size = Some []\<rparr>"

definition ring :: product where
  "ring =
     \<lparr>item_id = 5, title = ''Ring'', price = Fin 10, description = [],
      category = ''jewelery'', image_url = [], item_size = Some []\<rparr>"

definition uncategorised_item :: product where
  "uncategorised_item =
     \<lparr>item_id = 3, title = ''Thing'', price = Fin 3, description = [],
      category = [], image_url = [], item_size = None\<rparr>"

definition shirt_line :: cart_line where
  "shirt_line =
     \<lparr>item_id = 1, title = ''Shirt'', price = Fin 50, description = [],
      category = ''clothing'', image_url = [], item_size = Some ''M'', qty = Fin 2\<rparr>"

definition ring_line :: cart_line where
  "ring_line =
     \<lparr>item_id = 5, title = ''Ring'', price = Fin 10, description = [],
      category = ''jewelery'', image_url = [], item_size = Some [], qty = Fin 1\<rparr>"

definition two_lines :: cart where
  "two_lines = [shirt_line, ring_line]"

text \<open>The product of \<open>shirt_line\<close> again, with every field but the id changed.\<close>

definition shirt_again :: product where
  "shirt_again =
     \<lparr>item_id = 1, title = ''Shirt (renamed)'', price = Fin 60, description = [],
      category = ''women's clothing'', image_url = [], item_size = Some ''XL''\<rparr>"

definition monitor :: product where
  "monitor =
     \<lparr>item_id = 9, title = ''Monitor'', price = Fin 120, description = [],
      category = ''electronics'', image_url = [], item_size = Some []\<rparr>"

text \<open>A line whose quantity field was set to \<open>2\<^sup>5\<^sup>3\<close>, and a second shirt.\<close>

definition bulk_line :: cart_line where
  "bulk_line =
     \<lparr>item_id = 1, title = ''Shirt'', price = Fin 50, description = [],
      category = ''clothing'', image_url = [], item_size = Some ''M'',
      qty = Fin 9007199254740992\<rparr>"

definition single_line :: cart_line where
  "single_line =
     \<lparr>item_id = 2, title = ''Other shirt'', price = Fin 50, description = [],
      category = ''clothing'', image_url = [], item_size = Some ''L'', qty = Fin 1\<rparr>"

definition bulk_cart :: cart where
  "bulk_cart = [bulk_line, single_line]"

definition nameless_form :: shipping_form where
  "nameless_form = \<lparr>name = [], email = ''a@b.com'', address = ''X''\<rparr>"

definition filled_form :: shipping_form where
  "filled_form = \<lparr>name = ''A'', email = ''a@b.com'', address = ''X''\<rparr>"

definition blank_card :: card_fields where
  "blank_card = \<lparr>number = [], expiry = [], cvv = []\<rparr>"

definition some_card :: card_fields where
  "some_card = \<lparr>number = ''4111'', expiry = ''01/30'', cvv = ''1''\<rparr>"

section \<open>String search\<close>

lemma includes_iff_sublist: "includes_str s sub \<longleftrightarrow> sublist sub s"
proof (induction s)
  case Nil
  show ?case by auto
next
  case (Cons c cs)
  have "prefix sub (c # cs) \<longleftrightarrow> take (length sub) (c # cs) = sub"
  proof
    assume "prefix sub (c # cs)"
    then obtain zs where "c # cs = sub @ zs" by (auto simp: prefix_def)
    then show "take (length sub) (c # cs) = sub" by simp
  next
    assume "take (length sub) (c # cs) = sub"
    then show "prefix sub (c # cs)" by (metis take_is_prefix)
  qed
  with Cons show ?case
    by (simp only: includes_str.simps sublist_Cons_right)
qed

lemma includes_iff: "includes_str s sub \<longleftrightarrow> (\<exists>pre suf. s = pre @ sub @ suf)"
  by (simp add: includes_iff_sublist sublist_def)

lemma includes_char: "includes_str s [c] \<longleftrightarrow> c \<in> set s"
  by (induction s) (auto simp: take_Cons')

section \<open>Rounding to binary64\<close>

lemma powi_less_iff: "(2::rat) powi m < 2 powi n \<longleftrightarrow> m < n"
  by (metis linorder_not_less one_less_numeral_iff power_int_increasing
      power_int_strict_increasing semiring_norm(76) order_less_imp_le)

lemma powi_le_iff: "(2::rat) powi m \<le> 2 powi n \<longleftrightarrow> m \<le> n"
  by (metis linorder_not_less powi_less_iff)

lemma pow_nat_powi: "0 \<le> k \<Longrightarrow> (2::rat) ^ nat k = 2 powi k"
  by (simp add: power_int_def)

lemma bitlen_rat_bounds:
  assumes "0 < a"
  shows "(2::rat) powi (bitlen a - 1) \<le> of_int a" and "of_int a < (2::rat) powi bitlen a"
proof -
  from bitlen_bounds [OF assms]
  have lo: "2 ^ nat (bitlen a - 1) \<le> a" and hi: "a < 2 ^ nat (bitlen a)"
    by simp_all
  from assms have pos: "1 \<le> bitlen a"
    by (auto simp: bitlen_alt_def)
  from lo have "(of_int (2 ^ nat (bitlen a - 1)) :: rat) \<le> of_int a"
    by (simp only: of_int_le_iff)
  with pos show "(2::rat) powi (bitlen a - 1) \<le> of_int a"
    by (simp add: pow_nat_powi [symmetric])
  from hi have "(of_int a :: rat) < of_int (2 ^ nat (bitlen a))"
    by (simp only: of_int_less_iff)
  with pos show "of_int a < (2::rat) powi bitlen a"
    by (simp add: pow_nat_powi [symmetric])
qed

lemma flog2_bounds:
  assumes "0 < x"
  shows "2 powi flog2 x \<le> x \<and> x < 2 powi (flog2 x + 1)"
proof -
  obtain a b where q: "quotient_of x = (a, b)"
    by (cases "quotient_of x")
  then have b: "0 < b" and x: "x = of_int a / of_int b"
    by (simp_all add: quotient_of_denom_pos quotient_of_div)
  with assms have a: "0 < a"
    by (simp add: zero_less_divide_iff)
  define e where "e = bitlen a - bitlen b"
  have fl: "flog2 x = (if 2 powi e \<le> x then e else e - 1)"
    by (simp add: flog2_def q e_def Let_def)
  have "x < 2 powi bitlen a / 2 powi (bitlen b - 1)"
    unfolding x using bitlen_rat_bounds [OF a] bitlen_rat_bounds [OF b] a b
    by (intro frac_less) simp_all
  then have hi: "x < 2 powi (e + 1)"
    by (simp add: e_def power_int_diff [symmetric] algebra_simps)
  have "2 powi (bitlen a - 1) / 2 powi bitlen b < x"
    unfolding x using bitlen_rat_bounds [OF a] bitlen_rat_bounds [OF b] a b
    by (intro frac_less2) simp_all
  then have lo: "2 powi (e - 1) < x"
    by (simp add: e_def power_int_diff [symmetric] algebra_simps)
  show ?thesis
  proof (cases "2 powi e \<le> x")
    case True
    with hi fl show ?thesis by simp
  next
    case False
    with lo fl show ?thesis by simp
  qed
qed

lemma flog2_eqI:
  assumes "2 powi e \<le> x" and "x < 2 powi (e + 1)"
  shows "flog2 x = e"
proof -
  have "0 < x"
    using assms(1) by (meson less_le_trans zero_less_numeral zero_less_power_int)
  from flog2_bounds [OF this]
  have lo: "2 powi flog2 x \<le> x" and hi: "x < 2 powi (flog2 x + 1)"
    by simp_all
  from assms(1) hi have "(2::rat) powi e < 2 powi (flog2 x + 1)"
    by (rule le_less_trans)
  then have "e < flog2 x + 1"
    by (simp only: powi_less_iff)
  moreover from lo assms(2) have "(2::rat) powi flog2 x < 2 powi (e + 1)"
    by (rule le_less_trans)
  then have "flog2 x < e + 1"
    by (simp only: powi_less_iff)
  ultimately show ?thesis by simp
qed

lemma round_even_near:
  assumes "\<bar>q - of_int n\<bar> < 1 / 2"
  shows "round_even q = n"
proof (cases "of_int n \<le> q")
  case True
  with assms have "\<lfloor>q\<rfloor> = n" by (simp add: floor_eq_iff; linarith)
  with assms True show ?thesis by (simp add: round_even_def Let_def)
next
  case False
  with assms have f: "\<lfloor>q\<rfloor> = n - 1" by (simp add: floor_eq_iff; linarith)
  with assms False have "1 / 2 < q - of_int \<lfloor>q\<rfloor>" by (simp; linarith)
  with f show ?thesis by (simp add: round_even_def Let_def)
qed

lemma round_even_tie:
  assumes "q = of_int f + 1 / 2"
  shows "round_even q = (if even f then f else f + 1)"
proof -
  from assms have "\<lfloor>q\<rfloor> = f" by (simp add: floor_eq_iff)
  with assms show ?thesis by (simp add: round_even_def Let_def)
qed

lemma round_even_of_int: "round_even (of_int n) = n"
  by (rule round_even_near) simp

lemma round64_finite:
  assumes "2 powi e \<le> \<bar>x\<bar>" and "\<bar>x\<bar> < 2 powi (e + 1)" and "- 1022 \<le> e"
    and "round_even (x / 2 powi (e - 52)) = n"
    and "\<bar>of_int n * 2 powi (e - 52)\<bar> < (2::rat) ^ 1024"
  shows "round64 x = Fin (of_int n * 2 powi (e - 52))"
proof -
  have "0 < \<bar>x\<bar>"
    using assms(1) by (meson less_le_trans zero_less_numeral zero_less_power_int)
  then have "x \<noteq> 0" by simp
  moreover have "flog2 \<bar>x\<bar> = e"
    using assms(1,2) by (rule flog2_eqI)
  ultimately show ?thesis
    using assms(3,4,5) by (simp add: round64_def Let_def max_def)
qed

lemma round64_int:
  assumes "\<bar>n\<bar> \<le> 2 ^ 53"
  shows "round64 (of_int n) = Fin (of_int n)"
proof (cases "n = 0")
  case True
  then show ?thesis by (simp add: round64_def)
next
  case False
  define x :: rat where "x = of_int n"
  define e where "e = flog2 \<bar>x\<bar>"
  from False have xpos: "0 < \<bar>x\<bar>" and x1: "1 \<le> \<bar>x\<bar>"
    by (simp_all add: x_def flip: of_int_abs)
  from flog2_bounds [OF xpos]
  have lo: "2 powi e \<le> \<bar>x\<bar>" and hi: "\<bar>x\<bar> < 2 powi (e + 1)"
    by (simp_all add: e_def)
  from x1 hi have "(2::rat) powi 0 < 2 powi (e + 1)" by simp
  then have "0 < e + 1" by (simp only: powi_less_iff)
  then have e0: "0 \<le> e" by simp
  from assms have x53: "\<bar>x\<bar> \<le> 2 ^ 53"
    unfolding x_def by (metis of_int_abs of_int_le_iff of_int_numeral of_int_power)
  with lo have "(2::rat) powi e \<le> 2 powi 53" by simp
  then have e53: "e \<le> 53" by (simp only: powi_le_iff)
  have "\<exists>m. x / 2 powi (e - 52) = of_int m"
  proof (cases "e \<le> 52")
    case True
    then have "(2::rat) powi (e - 52) = 1 / 2 ^ nat (52 - e)"
      by (simp add: power_int_def power_one_over)
    then have "x / 2 powi (e - 52) = of_int (n * 2 ^ nat (52 - e))"
      by (simp add: x_def)
    then show ?thesis ..
  next
    case False
    with e53 have e: "e = 53" by simp
    with lo x53 have "\<bar>x\<bar> = 2 ^ 53" by simp
    then have "x = 2 ^ 53 \<or> x = - (2 ^ 53)" by (simp add: abs_if split: if_splits)
    then have "x / 2 powi (e - 52) = of_int (2 ^ 52) \<or> x / 2 powi (e - 52) = of_int (- (2 ^ 52))"
      by (auto simp: e)
    then show ?thesis by blast
  qed
  then obtain m where m: "x / 2 powi (e - 52) = of_int m" ..
  then have unscale: "of_int m * 2 powi (e - 52) = x"
    by (simp add: field_simps)
  have "round64 x = Fin (of_int m * 2 powi (e - 52))"
  proof (rule round64_finite [OF lo hi])
    show "- 1022 \<le> e" using e0 by simp
    show "round_even (x / 2 powi (e - 52)) = m" by (simp add: m round_even_of_int)
    have "\<bar>x\<bar> < 2 ^ 1024" using x53 by simp
    then show "\<bar>of_int m * 2 powi (e - 52)\<bar> < (2::rat) ^ 1024" by (simp only: unscale)
  qed
  then show ?thesis by (simp add: unscale x_def)
qed

lemma round64_Ints:
  assumes "x \<in> \<int>" and "\<bar>x\<bar> \<le> 2 ^ 53"
  shows "round64 x = Fin x"
proof -
  from assms(1) obtain n where x: "x = of_int n"
    by (auto elim: Ints_cases)
  with assms(2) have "(of_int \<bar>n\<bar> :: rat) \<le> of_int (2 ^ 53)"
    by simp
  then have "\<bar>n\<bar> \<le> 2 ^ 53"
    by (simp only: of_int_le_iff)
  then show ?thesis
    unfolding x by (rule round64_int)
qed

lemma round64_of_nat:
  assumes "n \<le> 2 ^ 53"
  shows "round64 (of_nat n) = Fin (of_nat n)"
proof -
  from assms have "int n \<le> int (2 ^ 53)"
    by (simp only: of_nat_le_iff)
  then have "\<bar>int n\<bar> \<le> 2 ^ 53"
    by simp
  from round64_int [OF this] show ?thesis by simp
qed

subsection \<open>The result is a nearest double\<close>

lemma round_even_half: "\<bar>q - of_int (round_even q)\<bar> \<le> 1 / 2"
proof -
  have "of_int \<lfloor>q\<rfloor> \<le> q \<and> q < of_int \<lfloor>q\<rfloor> + 1"
    by linarith
  then show ?thesis
    by (auto simp: round_even_def Let_def)
qed

lemma round_even_nearest: "\<bar>q - of_int (round_even q)\<bar> \<le> \<bar>q - of_int m\<bar>"
proof (cases "m = round_even q")
  case True
  then show ?thesis by simp
next
  case False
  then have "1 \<le> \<bar>round_even q - m\<bar>"
    by simp
  then have "(1::rat) \<le> of_int \<bar>round_even q - m\<bar>"
    by (metis of_int_1 of_int_le_iff)
  then have "1 \<le> \<bar>(of_int (round_even q) :: rat) - of_int m\<bar>"
    by simp
  with round_even_half [of q] show ?thesis
    by linarith
qed

lemma round_even_mono_le:
  assumes "q \<le> of_int m"
  shows "round_even q \<le> m"
proof (rule ccontr)
  assume "\<not> round_even q \<le> m"
  then have "m + 1 \<le> round_even q" by simp
  then have "(of_int (m + 1) :: rat) \<le> of_int (round_even q)"
    by (simp only: of_int_le_iff)
  with assms round_even_half [of q] have eq: "q = of_int m" "round_even q = m + 1"
    by (simp_all; linarith)+
  then show False by (simp add: round_even_of_int)
qed

lemma round_even_mono_ge:
  assumes "of_int m \<le> q"
  shows "m \<le> round_even q"
proof (rule ccontr)
  assume "\<not> m \<le> round_even q"
  then have "round_even q \<le> m - 1" by simp
  then have "(of_int (round_even q) :: rat) \<le> of_int (m - 1)"
    by (simp only: of_int_le_iff)
  with assms round_even_half [of q] have eq: "q = of_int m"
    by (simp; linarith)
  with \<open>\<not> m \<le> round_even q\<close> show False by (simp add: round_even_of_int)
qed

lemma round64_grid:
  assumes "round64 x = Fin y" and "x \<noteq> 0"
  shows "\<exists>k. y = of_int (round_even (x / 2 powi k)) * 2 powi k \<and> is_double y \<and>
           (\<forall>d. is_double d \<longrightarrow> (\<exists>j. d = of_int j * 2 powi k) \<or> \<bar>x - y\<bar> < \<bar>x - d\<bar>)"
proof -
  note False = assms(2)
  define E where "E = flog2 \<bar>x\<bar>"
  define k where "k = max E (- 1022) - 52"
  define u :: rat where "u = 2 powi k"
  define q where "q = x / u"
  define n where "n = round_even q"
  have u: "0 < u" by (simp add: u_def)
  have x: "x = q * u" using u by (simp add: q_def)
  from assms False have y: "y = of_int n * u" and fin: "\<bar>of_int n * u\<bar> < 2 ^ 1024"
    by (simp_all add: round64_def Let_def n_def q_def u_def k_def E_def split: if_splits)
  have lo: "2 powi E \<le> \<bar>x\<bar>" and hi: "\<bar>x\<bar> < 2 powi (E + 1)"
    using flog2_bounds [of "\<bar>x\<bar>"] False by (simp_all add: E_def)
  have k_lo: "- 1074 \<le> k" and k_E: "E \<le> k + 52"
    by (simp_all add: k_def)
  have pk: "2 powi (k + 53) = 2 ^ 53 * u" "2 powi (k + 52) = 2 ^ 52 * u"
    by (simp_all add: u_def power_int_add)
  from hi k_E have "\<bar>x\<bar> < 2 powi (k + 53)"
    by (smt (verit) powi_le_iff order_less_le_trans)
  then have qb: "\<bar>q\<bar> < 2 ^ 53"
    using u by (simp add: pk q_def abs_divide field_simps)
  then have "q \<le> of_int (2 ^ 53)" "of_int (- (2 ^ 53)) \<le> q"
    by simp_all
  then have "n \<le> 2 ^ 53" "- (2 ^ 53) \<le> n"
    unfolding n_def using round_even_mono_le round_even_mono_ge by blast+
  then have nb: "\<bar>n\<bar> \<le> 2 ^ 53" by simp
  have abs_y: "\<bar>of_int n * u\<bar> = of_int \<bar>n\<bar> * u"
    using u by (simp add: abs_mult)
  have dbl: "is_double y"
  proof (cases "\<bar>n\<bar> = 2 ^ 53")
    case True
    with fin abs_y have "2 powi (k + 53) < (2::rat) powi 1024"
      by (simp add: pk)
    then have "k + 53 < 1024" by (simp only: powi_less_iff)
    then have k1: "k + 1 \<le> 971" by simp
    have two: "(2::rat) powi (k + 1) = 2 * u"
      by (simp add: u_def power_int_add)
    from True have "n = 2 ^ 53 \<or> n = - (2 ^ 53)" by (simp add: abs_if split: if_splits)
    then have "n = 2 * (n div 2) \<and> \<bar>n div 2\<bar> < 2 ^ 53"
      by (rule disjE) simp_all
    then have ev: "(of_int n :: rat) = 2 * of_int (n div 2)" and half: "\<bar>n div 2\<bar> < 2 ^ 53"
      by (metis of_int_mult of_int_numeral, simp)
    have "y = of_int (n div 2) * 2 powi (k + 1)"
      unfolding y ev two by simp
    moreover from k_lo have "- 1074 \<le> k + 1" by simp
    ultimately show ?thesis
      unfolding is_double_def using k1 half by blast
  next
    case False
    with nb have nlt: "\<bar>n\<bar> < 2 ^ 53" by simp
    show ?thesis
    proof (cases "n = 0")
      case True
      then have "y = of_int 0 * 2 powi 0" by (simp add: y)
      then show ?thesis
        unfolding is_double_def by (intro exI [of _ 0]) simp
    next
      case n0: False
      have "k \<le> 971"
      proof (cases "- 1022 \<le> E")
        case True
        then have kE: "k + 52 = E" by (simp add: k_def)
        from lo have "2 powi (k + 52) \<le> \<bar>x\<bar>" by (simp only: kE)
        then have "2 ^ 52 * u \<le> \<bar>x\<bar>" by (simp only: pk)
        then have "2 ^ 52 \<le> \<bar>q\<bar>" using u by (simp add: q_def abs_divide field_simps)
        then have "of_int (2 ^ 52) \<le> q \<or> q \<le> of_int (- (2 ^ 52))"
          by (simp add: abs_if split: if_splits)
        then have "2 ^ 52 \<le> n \<or> n \<le> - (2 ^ 52)"
          unfolding n_def using round_even_mono_ge round_even_mono_le by blast
        then have "2 ^ 52 \<le> \<bar>n\<bar>" by linarith
        then have "(of_int (2 ^ 52) :: rat) \<le> of_int \<bar>n\<bar>" by (simp only: of_int_le_iff)
        then have "2 ^ 52 * u \<le> of_int \<bar>n\<bar> * u" using u by simp
        with fin abs_y have "2 powi (k + 52) < (2::rat) powi 1024" by (simp add: pk)
        then have "k + 52 < 1024" by (simp only: powi_less_iff)
        then show ?thesis by simp
      next
        case False
        then show ?thesis by (simp add: k_def)
      qed
      with nlt k_lo show ?thesis
        unfolding is_double_def y u_def by blast
    qed
  qed
  have near: "(\<exists>j. d = of_int j * u) \<or> \<bar>x - y\<bar> < \<bar>x - d\<bar>" if d: "is_double d" for d
  proof -
    from d obtain m e where de: "d = of_int m * 2 powi e" and m: "\<bar>m\<bar> < 2 ^ 53"
      and e: "- 1074 \<le> e" "e \<le> 971"
      unfolding is_double_def by blast
    have scale: "\<bar>x - of_int j * u\<bar> = \<bar>q - of_int j\<bar> * u" for j
    proof -
      have "x - of_int j * u = (q - of_int j) * u" by (simp add: x algebra_simps)
      then show ?thesis using u by (simp add: abs_mult)
    qed
    have grid: "\<bar>x - y\<bar> \<le> \<bar>x - of_int j * u\<bar>" for j
      unfolding y scale n_def using round_even_nearest [of q j] u by simp
    show ?thesis
    proof (cases "k \<le> e")
      case True
      have "(2::rat) powi e = 2 powi (e - k) * u"
        by (simp add: u_def power_int_add [symmetric])
      also from True have "(2::rat) powi (e - k) = of_int (2 ^ nat (e - k))"
        by (simp add: power_int_def)
      finally have "d = of_int (m * 2 ^ nat (e - k)) * u"
        by (simp add: de)
      then show ?thesis by blast
    next
      case False
      then have ek: "e + 1 \<le> k" by simp
      with e(1) have "- 1022 < E" by (simp add: k_def max_def split: if_splits)
      then have kE: "k + 52 = E" by (simp add: k_def)
      from m have "(of_int \<bar>m\<bar> :: rat) < of_int (2 ^ 53)" by (simp only: of_int_less_iff)
      then have "\<bar>d\<bar> < 2 ^ 53 * 2 powi e"
        by (simp add: de abs_mult)
      also have "(2 ^ 53 :: rat) * 2 powi e = 2 powi (e + 53)"
        by (simp add: power_int_add)
      also from ek have "\<dots> \<le> 2 powi (k + 52)"
        by (simp only: powi_le_iff)
      finally have dB: "\<bar>d\<bar> < 2 ^ 52 * u" by (simp add: pk)
      from lo have "2 powi (k + 52) \<le> \<bar>x\<bar>" by (simp only: kE)
      then have xB: "2 ^ 52 * u \<le> \<bar>x\<bar>" by (simp only: pk)
      have "\<bar>x - y\<bar> < \<bar>x - d\<bar>"
      proof (cases "0 \<le> x")
        case True
        from grid [of "2 ^ 52"] have "\<bar>x - y\<bar> \<le> \<bar>x - 2 ^ 52 * u\<bar>" by simp
        with True xB dB show ?thesis by linarith
      next
        case False
        from grid [of "- (2 ^ 52)"] have "\<bar>x - y\<bar> \<le> \<bar>x + 2 ^ 52 * u\<bar>" by simp
        with False xB dB show ?thesis by linarith
      qed
      then show ?thesis ..
    qed
  qed
  have "y = of_int (round_even (x / 2 powi k)) * 2 powi k"
    by (simp add: y n_def q_def u_def)
  with dbl near show ?thesis
    unfolding u_def by blast
qed

text \<open>
  \<open>round64\<close> is rounding to nearest: a finite result is a double, and no double is
  nearer to the exact value.
\<close>

lemma round64_nearest_double:
  assumes "round64 x = Fin y"
  shows "is_double y \<and> (\<forall>d. is_double d \<longrightarrow> \<bar>x - y\<bar> \<le> \<bar>x - d\<bar>)"
proof (cases "x = 0")
  case True
  with assms have "y = 0" by (simp add: round64_def)
  moreover have "is_double 0"
    unfolding is_double_def by (intro exI [of _ 0]) simp
  ultimately show ?thesis using True by simp
next
  case False
  from round64_grid [OF assms False] obtain k
    where y: "y = of_int (round_even (x / 2 powi k)) * 2 powi k" and dbl: "is_double y"
      and grid: "\<forall>d. is_double d \<longrightarrow> (\<exists>j. d = of_int j * 2 powi k) \<or> \<bar>x - y\<bar> < \<bar>x - d\<bar>"
    by blast
  define u :: rat where "u = 2 powi k"
  have u: "0 < u" by (simp add: u_def)
  have "\<bar>x - y\<bar> \<le> \<bar>x - d\<bar>" if "is_double d" for d
  proof -
    from grid that have "(\<exists>j. d = of_int j * u) \<or> \<bar>x - y\<bar> < \<bar>x - d\<bar>"
      unfolding u_def by blast
    then show ?thesis
    proof
      assume "\<exists>j. d = of_int j * u"
      then obtain j where d: "d = of_int j * u" ..
      have "x - of_int i * u = (x / u - of_int i) * u" for i
        using u by (simp add: algebra_simps)
      then have scale: "\<bar>x - of_int i * u\<bar> = \<bar>x / u - of_int i\<bar> * u" for i
        using u by (simp add: abs_mult)
      from round_even_nearest [of "x / u" j] u
      have "\<bar>x / u - of_int (round_even (x / u))\<bar> * u \<le> \<bar>x / u - of_int j\<bar> * u"
        by (intro mult_right_mono) simp_all
      then show ?thesis
        unfolding d y scale u_def [symmetric] .
    next
      assume "\<bar>x - y\<bar> < \<bar>x - d\<bar>"
      then show ?thesis by simp
    qed
  qed
  with dbl show ?thesis by blast
qed

lemma round_even_tie_even:
  assumes "\<bar>q - of_int (round_even q)\<bar> = 1 / 2"
  shows "even (round_even q)"
proof -
  have fl: "of_int \<lfloor>q\<rfloor> \<le> q \<and> q < of_int \<lfloor>q\<rfloor> + 1"
    by linarith
  show ?thesis
  proof (cases "q - of_int \<lfloor>q\<rfloor> = 1 / 2")
    case True
    then show ?thesis by (simp add: round_even_def Let_def)
  next
    case False
    with fl assms show ?thesis
      by (auto simp: round_even_def Let_def split: if_splits)
  qed
qed

text \<open>
  Ties go to even: when another double is as near to the exact value as the result, the
  two are neighbours on the grid of the result and the result is the even one.
\<close>

lemma round64_ties_to_even:
  assumes "round64 x = Fin y" and "is_double d" and "d \<noteq> y" and "\<bar>x - d\<bar> = \<bar>x - y\<bar>"
  shows "\<exists>m k. y = of_int (2 * m) * 2 powi k
           \<and> (d = of_int (2 * m + 1) * 2 powi k \<or> d = of_int (2 * m - 1) * 2 powi k)"
proof -
  have nz: "x \<noteq> 0"
  proof
    assume "x = 0"
    with assms(1) have "y = 0" by (simp add: round64_def)
    with \<open>x = 0\<close> assms(3,4) show False by simp
  qed
  from round64_grid [OF assms(1) nz] obtain k
    where y: "y = of_int (round_even (x / 2 powi k)) * 2 powi k"
      and grid: "\<forall>d. is_double d \<longrightarrow> (\<exists>j. d = of_int j * 2 powi k) \<or> \<bar>x - y\<bar> < \<bar>x - d\<bar>"
    by blast
  define u :: rat where "u = 2 powi k"
  define q where "q = x / u"
  define n where "n = round_even q"
  have u: "0 < u" by (simp add: u_def)
  from grid assms(2,4) obtain j where d: "d = of_int j * u"
    unfolding u_def by force
  have yn: "y = of_int n * u"
    by (simp add: y n_def q_def u_def)
  have "x - of_int i * u = (q - of_int i) * u" for i
    using u by (simp add: q_def algebra_simps)
  then have scale: "\<bar>x - of_int i * u\<bar> = \<bar>q - of_int i\<bar> * u" for i
    using u by (simp add: abs_mult)
  from assms(4) have same: "\<bar>q - of_int j\<bar> = \<bar>q - of_int n\<bar>"
    unfolding d yn scale using u by simp
  from assms(3) have "j \<noteq> n"
    unfolding d yn by auto
  then have "1 \<le> \<bar>j - n\<bar>" by simp
  then have "(1::rat) \<le> of_int \<bar>j - n\<bar>"
    by (metis of_int_1 of_int_le_iff)
  then have apart: "1 \<le> \<bar>(of_int j :: rat) - of_int n\<bar>"
    by simp
  have half: "\<bar>q - of_int n\<bar> \<le> 1 / 2"
    unfolding n_def by (rule round_even_half)
  from same apart half have tie: "\<bar>q - of_int n\<bar> = 1 / 2"
    and next_to: "\<bar>(of_int j :: rat) - of_int n\<bar> = 1"
    by linarith+
  from tie have "even n"
    unfolding n_def by (rule round_even_tie_even)
  then obtain m where m: "n = 2 * m" ..
  from next_to have "(of_int \<bar>j - n\<bar> :: rat) = of_int 1"
    by simp
  then have "\<bar>j - n\<bar> = 1"
    by (simp only: of_int_eq_iff)
  then have "j = 2 * m + 1 \<or> j = 2 * m - 1"
    unfolding m by linarith
  with d yn m show ?thesis
    unfolding u_def by blast
qed

lemma round64_not_NaN: "round64 x \<noteq> NaN"
  by (simp add: round64_def Let_def)

lemma round64_infinite:
  assumes "round64 x = PInf \<or> round64 x = NInf"
  shows "2 ^ 1024 - 2 ^ 970 \<le> \<bar>x\<bar> \<and> (round64 x = PInf \<longleftrightarrow> 0 < x)"
proof -
  define E where "E = flog2 \<bar>x\<bar>"
  define k where "k = max E (- 1022) - 52"
  define u :: rat where "u = 2 powi k"
  define q where "q = x / u"
  define n where "n = round_even q"
  from assms have nz: "x \<noteq> 0"
    by (auto simp: round64_def)
  have u: "0 < u" by (simp add: u_def)
  from assms nz have big: "2 ^ 1024 \<le> \<bar>of_int n * u\<bar>" and sign: "round64 x = PInf \<longleftrightarrow> 0 < x"
    by (auto simp: round64_def Let_def n_def q_def u_def k_def E_def split: if_splits)
  have lo: "2 powi E \<le> \<bar>x\<bar>"
    using flog2_bounds [of "\<bar>x\<bar>"] nz by (simp add: E_def)
  have "2 ^ 1024 - 2 ^ 970 \<le> \<bar>x\<bar>"
  proof (cases "1024 \<le> E")
    case True
    then have "(2::rat) powi 1024 \<le> 2 powi E"
      by (simp only: powi_le_iff)
    with lo have "2 ^ 1024 \<le> \<bar>x\<bar>" by simp
    then show ?thesis by simp
  next
    case False
    then have "k \<le> 971" by (simp add: k_def)
    then have "u \<le> 2 powi 971"
      unfolding u_def by (simp only: powi_le_iff)
    then have u971: "u \<le> 2 ^ 971" by simp
    have "\<bar>q - of_int n\<bar> \<le> 1 / 2"
      unfolding n_def by (rule round_even_half)
    then have "\<bar>q - of_int n\<bar> * u \<le> 1 / 2 * u"
      using u by (intro mult_right_mono) simp_all
    moreover have "q * u - of_int n * u = (q - of_int n) * u"
      by (simp add: algebra_simps)
    then have "\<bar>q * u - of_int n * u\<bar> = \<bar>q - of_int n\<bar> * u"
      using u by (simp add: abs_mult)
    ultimately have "\<bar>q * u - of_int n * u\<bar> \<le> u / 2"
      by simp
    moreover have "q * u = x" using u by (simp add: q_def)
    ultimately have "\<bar>x - of_int n * u\<bar> \<le> u / 2" by simp
    with big have "2 ^ 1024 - u / 2 \<le> \<bar>x\<bar>" by linarith
    with u971 show ?thesis by simp
  qed
  with sign show ?thesis by simp
qed

lemma round64_finite_range:
  assumes "\<bar>x\<bar> < 2 ^ 1024 - 2 ^ 970"
  shows "\<exists>y. round64 x = Fin y"
proof (cases "round64 x")
  case (Fin y)
  then show ?thesis by simp
next
  case PInf
  with round64_infinite [of x] have "2 ^ 1024 - 2 ^ 970 \<le> \<bar>x\<bar>" by blast
  with assms have False by linarith
  then show ?thesis ..
next
  case NInf
  with round64_infinite [of x] have "2 ^ 1024 - 2 ^ 970 \<le> \<bar>x\<bar>" by blast
  with assms have False by linarith
  then show ?thesis ..
next
  case NaN
  then show ?thesis by (simp add: round64_not_NaN)
qed

subsection \<open>Test values\<close>

text \<open>A result of magnitude \<open>2\<^sup>1\<^sup>0\<^sup>2\<^sup>4\<close> or more overflows.\<close>

lemma round64_overflow:
  assumes "2 powi e \<le> x" and "x < 2 powi (e + 1)" and "- 1022 \<le> e"
    and "round_even (x / 2 powi (e - 52)) = n"
    and "(2::rat) ^ 1024 \<le> \<bar>of_int n * 2 powi (e - 52)\<bar>"
  shows "round64 x = PInf"
proof -
  have pos: "0 < x"
    using assms(1) by (meson less_le_trans zero_less_numeral zero_less_power_int)
  then have "flog2 \<bar>x\<bar> = e"
    using assms(1,2) by (intro flog2_eqI) simp_all
  with pos assms(3,4,5) show ?thesis
    by (simp add: round64_def Let_def max_def)
qed

text \<open>The test values: the sums and products met in the examples below.\<close>

lemma round64_222_3:
  "round64 (200 + 6276891980647629 / 281474976710656) = Fin (3910742957673677 / 17592186044416)"
  using round64_finite [of 7 "200 + 6276891980647629 / 281474976710656" 7821485915347354]
  by (simp add: round_even_near)

lemma round64_tv_product:
  "round64 (9007199254740991 * 100) = Fin 900719925474099072"
  using round64_finite [of 59 "9007199254740991 * 100" 7036874417766399]
  by (simp add: round_even_near)

lemma round64_tv_sum:
  "round64 (20000 + 900719925474099072) = Fin 900719925474119040"
  using round64_finite [of 59 "20000 + 900719925474099072" 7036874417766555]
  by (simp add: round_even_near)

lemma round64_near_300:
  "round64 (200 + (100 - 1 / 2 ^ 46)) = Fin 300"
  using round64_finite [of 8 "200 + (100 - 1 / 2 ^ 46)" 5277655813324800]
  by (simp add: round_even_near)

lemma round64_two_53_plus_1:
  "round64 (9007199254740992 + 1) = Fin 9007199254740992"
  using round64_finite [of 53 "9007199254740992 + 1" 4503599627370496]
    round_even_tie [of "(9007199254740992 + 1) / 2" 4503599627370496]
  by simp

lemma round64_bulk_product:
  "round64 (250 * 9007199254740992) = Fin 2251799813685248000"
  using round64_finite [of 60 "250 * 9007199254740992" 8796093022208000]
  by (simp add: round_even_near)

lemma round64_bulk_sum:
  "round64 (2251799813685248000 + 250) = Fin 2251799813685248256"
  using round64_finite [of 60 "2251799813685248000 + 250" 8796093022208001]
  by (simp add: round_even_near)

lemma round64_overflows:
  "round64 (2 ^ 1023 * 100) = PInf"
  using round64_overflow [of 1029 "2 ^ 1023 * 100" 7036874417766400]
  by (simp add: round_even_near)

section \<open>The remainder operator\<close>

lemma js_rem_nonneg:
  assumes "0 \<le> x"
  shows "js_rem (Fin x) (Fin 100) = Fin (x - 100 * of_int \<lfloor>x / 100\<rfloor>)"
  using assms by (simp add: trunc_def)

lemma js_rem_neg:
  assumes "x < 0"
  shows "js_rem (Fin x) (Fin 100) = Fin (x - 100 * of_int \<lceil>x / 100\<rceil>)"
  using assms by (simp add: trunc_def)

lemma floor_mod_bounds:
  fixes x :: rat
  shows "0 \<le> x - 100 * of_int \<lfloor>x / 100\<rfloor> \<and> x - 100 * of_int \<lfloor>x / 100\<rfloor> < 100"
proof -
  have "of_int \<lfloor>x / 100\<rfloor> \<le> x / 100 \<and> x / 100 < of_int \<lfloor>x / 100\<rfloor> + 1"
    by linarith
  then show ?thesis by linarith
qed

lemma js_rem_small:
  assumes "\<bar>x\<bar> < 100"
  shows "js_rem (Fin x) (Fin 100) = Fin x"
proof -
  have "trunc (x / 100) = 0"
  proof (cases "0 \<le> x")
    case True
    with assms have "\<lfloor>x / 100\<rfloor> = 0" by (simp add: floor_eq_iff)
    with True show ?thesis by (simp add: trunc_def)
  next
    case False
    with assms have "\<lceil>x / 100\<rceil> = 0" by (simp add: ceiling_eq_iff)
    with False show ?thesis by (simp add: trunc_def)
  qed
  then show ?thesis by simp
qed

lemma trunc_rem_bounds:
  fixes x :: rat
  defines "r \<equiv> x - 100 * of_int (trunc (x / 100))"
  shows "\<bar>r\<bar> \<le> \<bar>x\<bar>" and "\<bar>r\<bar> < 100"
proof -
  have fl: "of_int \<lfloor>x / 100\<rfloor> \<le> x / 100 \<and> x / 100 < of_int \<lfloor>x / 100\<rfloor> + 1"
    by linarith
  have ce: "of_int \<lceil>x / 100\<rceil> - 1 < x / 100 \<and> x / 100 \<le> of_int \<lceil>x / 100\<rceil>"
    by linarith
  have "\<bar>r\<bar> \<le> \<bar>x\<bar> \<and> \<bar>r\<bar> < 100"
  proof (cases "0 \<le> x")
    case True
    then have "0 \<le> \<lfloor>x / 100\<rfloor>" by simp
    then have "(0::rat) \<le> of_int \<lfloor>x / 100\<rfloor>" by simp
    with True fl show ?thesis
      unfolding r_def trunc_def by (simp; linarith)
  next
    case False
    then have "\<lceil>x / 100\<rceil> \<le> 0" by (simp add: ceiling_le_iff)
    then have "(of_int \<lceil>x / 100\<rceil> :: rat) \<le> 0" by simp
    with False ce show ?thesis
      unfolding r_def trunc_def by (simp; linarith)
  qed
  then show "\<bar>r\<bar> \<le> \<bar>x\<bar>" and "\<bar>r\<bar> < 100" by simp_all
qed

text \<open>The remainder by 100 of a double is a double: \<open>%\<close> has nothing to round.\<close>

lemma js_rem_is_double:
  assumes "is_double x"
  shows "is_double (x - 100 * of_int (trunc (x / 100)))"
proof -
  define t where "t = trunc (x / 100)"
  define r where "r = x - 100 * of_int t"
  from trunc_rem_bounds [of x] have rx: "\<bar>r\<bar> \<le> \<bar>x\<bar>" and r100: "\<bar>r\<bar> < 100"
    by (simp_all add: r_def t_def)
  from assms obtain m e where x: "x = of_int m * 2 powi e" and m: "\<bar>m\<bar> < 2 ^ 53"
    and e: "- 1074 \<le> e" "e \<le> 971"
    unfolding is_double_def by blast
  have "is_double r"
  proof (cases "0 \<le> e")
    case True
    then have "(2::rat) powi e = of_int (2 ^ nat e)"
      by (simp add: power_int_def)
    then have "r = of_int (m * 2 ^ nat e - 100 * t)"
      by (simp add: r_def x)
    then obtain i :: int where i: "r = of_int i" ..
    with r100 have "(of_int \<bar>i\<bar> :: rat) < of_int 100" by simp
    then have "\<bar>i\<bar> < 100" by (simp only: of_int_less_iff)
    then have "\<bar>i\<bar> < 2 ^ 53" by simp
    moreover have "r = of_int i * 2 powi 0" by (simp add: i)
    ultimately show ?thesis
      unfolding is_double_def by (intro exI [of _ i] exI [of _ 0]) simp
  next
    case False
    then have inv: "(2::rat) powi e * of_int (2 ^ nat (- e)) = 1"
      by (simp add: power_int_def power_one_over)
    have pos: "(0::rat) < 2 powi e" by simp
    have "r = of_int m * 2 powi e - 100 * of_int t * (2 powi e * of_int (2 ^ nat (- e)))"
      by (simp only: inv r_def x mult_1_right)
    also have "\<dots> = of_int (m - 100 * t * 2 ^ nat (- e)) * 2 powi e"
      by (simp add: algebra_simps)
    finally obtain i :: int where i: "r = of_int i * 2 powi e" ..
    from rx have "\<bar>of_int i * (2::rat) powi e\<bar> \<le> \<bar>of_int m * (2::rat) powi e\<bar>"
      by (simp only: i x)
    then have "\<bar>(of_int i :: rat)\<bar> * 2 powi e \<le> \<bar>of_int m\<bar> * 2 powi e"
      by (simp add: abs_mult)
    with pos have "\<bar>(of_int i :: rat)\<bar> \<le> \<bar>of_int m\<bar>"
      by (simp only: mult_le_cancel_right_pos)
    then have "(of_int \<bar>i\<bar> :: rat) \<le> of_int \<bar>m\<bar>" by simp
    then have "\<bar>i\<bar> \<le> \<bar>m\<bar>" by (simp only: of_int_le_iff)
    with m have "\<bar>i\<bar> < 2 ^ 53" by simp
    with i e show ?thesis
      unfolding is_double_def by blast
  qed
  then show ?thesis by (simp add: r_def t_def)
qed

text \<open>On a natural number the operator is the integer \<open>mod\<close>.\<close>

lemma js_rem_of_nat: "js_rem (Fin (of_nat k)) (Fin 100) = Fin (of_nat (k mod 100))"
proof -
  have "\<lfloor>(of_nat k :: rat) / 100\<rfloor> = int (k div 100)"
    by (metis floor_divide_of_nat_eq of_nat_numeral)
  then have "js_rem (Fin (of_nat k)) (Fin 100) = Fin (of_nat k - 100 * of_nat (k div 100))"
    by (simp add: trunc_def)
  also have "of_nat k - 100 * of_nat (k div 100) = (of_nat (k mod 100) :: rat)"
    by (simp add: minus_div_mult_eq_mod[symmetric] mult.commute)
  finally show ?thesis .
qed

section \<open>Price logic\<close>

lemma js_add_Fin_left: "js_add (Fin c) r = plus_rounded c r"
  by (cases r) simp_all

text \<open>
  C1 as stated: the price is the number \<open>20000 + rawPrice * 100\<close> for an electronics
  item, and \<open>200 + (rawPrice mod 100)\<close> for a clothing item. The sum and the product of
  the code are those of doubles, so at the raw price \<open>2\<^sup>5\<^sup>3 - 1\<close> the electronics
  price is 60 below that number; and the remainder of the code takes the sign of the
  dividend, so at the raw price \<open>-50\<close> the clothing price is \<open>200 - 50\<close>, where
  \<open>-50 mod 100 = 50\<close>.
\<close>

theorem getCustomPrice_exact_counterexample:
  "category top_price_tv = [] @ ''electronics'' @ []
   \<and> price top_price_tv = Fin 9007199254740991
   \<and> getCustomPrice top_price_tv = Fin 900719925474119040
   \<and> getCustomPrice top_price_tv \<noteq> Fin (20000 + 9007199254740991 * 100)
   \<and> category negative_price_shirt = [] @ ''clothing'' @ []
   \<and> price negative_price_shirt = Fin (- 50)
   \<and> getCustomPrice negative_price_shirt = Fin 150
   \<and> getCustomPrice negative_price_shirt \<noteq> Fin (200 + of_int (- 50 mod 100))"
proof -
  have tv: "getCustomPrice top_price_tv = Fin 900719925474119040"
    by (simp add: getCustomPrice_def top_price_tv_def round64_tv_product [simplified]
        round64_tv_sum [simplified])
  have "js_rem (Fin (- 50)) (Fin 100) = Fin (- 50)"
    by (rule js_rem_small) simp
  then have shirt: "getCustomPrice negative_price_shirt = Fin 150"
    by (simp add: getCustomPrice_def negative_price_shirt_def round64_Ints del: js_rem.simps)
  show ?thesis
    unfolding tv shirt by (simp add: top_price_tv_def negative_price_shirt_def)
qed

text \<open>
  C1, amended: for every item with a string category and a finite raw price,
  \<open>getCustomPrice\<close> returns the first matching case, a category matching a word when
  the word occurs in it as a contiguous substring, and every sum and product being
  rounded to the nearest double (\<open>round64\<close>; an overflowing product gives an infinity):
  for "clothing" and a raw price \<open>x \<ge> 0\<close>, the double nearest \<open>200 + (x mod 100)\<close>, where
  \<open>x mod 100 = x - 100 * \<lfloor>x / 100\<rfloor>\<close>; else for "electronics", the double nearest
  \<open>20000 + r\<close> where \<open>r\<close> is the double nearest \<open>x * 100\<close>; else for "jewelery", the same
  with \<open>5000\<close> and \<open>x * 200\<close>; else, and for the empty category, the same with \<open>1000\<close> and
  \<open>x * 50\<close>. The function is defined on every category string and has no failing
  branch.
\<close>

theorem getCustomPrice_first_match:
  assumes "price p = Fin x"
  shows "(contains (category p) ''clothing'' \<and> 0 \<le> x \<longrightarrow>
            getCustomPrice p = round64 (200 + (x - 100 * of_int \<lfloor>x / 100\<rfloor>)))
       \<and> (\<not> contains (category p) ''clothing'' \<and> contains (category p) ''electronics'' \<longrightarrow>
            getCustomPrice p = plus_rounded 20000 (round64 (x * 100)))
       \<and> (\<not> contains (category p) ''clothing'' \<and> \<not> contains (category p) ''electronics''
            \<and> contains (category p) ''jewelery'' \<longrightarrow>
            getCustomPrice p = plus_rounded 5000 (round64 (x * 200)))
       \<and> (\<not> contains (category p) ''clothing'' \<and> \<not> contains (category p) ''electronics''
            \<and> \<not> contains (category p) ''jewelery'' \<longrightarrow>
            getCustomPrice p = plus_rounded 1000 (round64 (x * 50)))
       \<and> (category p = [] \<longrightarrow> getCustomPrice p = plus_rounded 1000 (round64 (x * 50)))"
proof (intro conjI impI)
  assume "contains (category p) ''clothing'' \<and> 0 \<le> x"
  then show "getCustomPrice p = round64 (200 + (x - 100 * of_int \<lfloor>x / 100\<rfloor>))"
    using assms by (simp add: getCustomPrice_def includes_iff js_rem_nonneg del: js_rem.simps)
next
  assume "\<not> contains (category p) ''clothing'' \<and> contains (category p) ''electronics''"
  then show "getCustomPrice p = plus_rounded 20000 (round64 (x * 100))"
    using assms by (simp add: getCustomPrice_def includes_iff js_add_Fin_left del: js_add.simps)
next
  assume "\<not> contains (category p) ''clothing'' \<and> \<not> contains (category p) ''electronics''
            \<and> contains (category p) ''jewelery''"
  then show "getCustomPrice p = plus_rounded 5000 (round64 (x * 200))"
    using assms by (simp add: getCustomPrice_def includes_iff js_add_Fin_left del: js_add.simps)
next
  assume "\<not> contains (category p) ''clothing'' \<and> \<not> contains (category p) ''electronics''
            \<and> \<not> contains (category p) ''jewelery''"
  then show "getCustomPrice p = plus_rounded 1000 (round64 (x * 50))"
    using assms by (simp add: getCustomPrice_def includes_iff js_add_Fin_left del: js_add.simps)
next
  assume "category p = []"
  then show "getCustomPrice p = plus_rounded 1000 (round64 (x * 50))"
    using assms by (simp add: getCustomPrice_def js_add_Fin_left del: js_add.simps)
qed

theorem getCustomPrice_first_match_witness:
  "price fractional_price_shirt = Fin (6276891980647629 / 281474976710656)
   \<and> category fractional_price_shirt = ''men's '' @ ''clothing'' @ []
   \<and> getCustomPrice fractional_price_shirt = Fin (3910742957673677 / 17592186044416)
   \<and> price top_price_tv = Fin 9007199254740991
   \<and> category top_price_tv = [] @ ''electronics'' @ []
   \<and> getCustomPrice top_price_tv = Fin 900719925474119040
   \<and> price ring = Fin 10
   \<and> category ring = [] @ ''jewelery'' @ []
   \<and> getCustomPrice ring = Fin 7000
   \<and> price uncategorised_item = Fin 3
   \<and> category uncategorised_item = []
   \<and> getCustomPrice uncategorised_item = Fin 1150"
proof -
  have shirt: "price fractional_price_shirt = Fin (6276891980647629 / 281474976710656)"
    "category fractional_price_shirt = ''men's '' @ ''clothing'' @ []"
    by (simp_all add: fractional_price_shirt_def)
  from shirt(2) have shirt_c: "contains (category fractional_price_shirt) ''clothing''"
    by blast
  have fl: "\<lfloor>(6276891980647629 / 281474976710656 :: rat) / 100\<rfloor> = 0"
    by (simp add: floor_eq_iff)
  from getCustomPrice_first_match [OF shirt(1)] shirt_c
  have "getCustomPrice fractional_price_shirt =
          round64 (200 + (6276891980647629 / 281474976710656
            - 100 * of_int \<lfloor>(6276891980647629 / 281474976710656 :: rat) / 100\<rfloor>))"
    by simp
  then have v1: "getCustomPrice fractional_price_shirt = Fin (3910742957673677 / 17592186044416)"
    by (simp only: fl of_int_0 mult_zero_right diff_zero round64_222_3)
  have tv: "price top_price_tv = Fin 9007199254740991"
    "category top_price_tv = [] @ ''electronics'' @ []"
    by (simp_all add: top_price_tv_def)
  have tv_c: "\<not> contains (category top_price_tv) ''clothing''"
    "contains (category top_price_tv) ''electronics''"
    unfolding includes_iff [symmetric] by (simp_all add: top_price_tv_def)
  from getCustomPrice_first_match [OF tv(1)] tv_c
  have "getCustomPrice top_price_tv = plus_rounded 20000 (round64 (9007199254740991 * 100))"
    by blast
  then have v2: "getCustomPrice top_price_tv = Fin 900719925474119040"
    by (simp add: round64_tv_product [simplified] round64_tv_sum [simplified])
  have rg: "price ring = Fin 10" "category ring = [] @ ''jewelery'' @ []"
    by (simp_all add: ring_def)
  have rg_c: "\<not> contains (category ring) ''clothing''"
    "\<not> contains (category ring) ''electronics''" "contains (category ring) ''jewelery''"
    unfolding includes_iff [symmetric] by (simp_all add: ring_def)
  from getCustomPrice_first_match [OF rg(1)] rg_c
  have "getCustomPrice ring = plus_rounded 5000 (round64 (10 * 200))"
    by blast
  then have v3: "getCustomPrice ring = Fin 7000"
    by (simp add: round64_Ints)
  have un: "price uncategorised_item = Fin 3" "category uncategorised_item = []"
    by (simp_all add: uncategorised_item_def)
  from getCustomPrice_first_match [OF un(1)] un(2)
  have "getCustomPrice uncategorised_item = plus_rounded 1000 (round64 (3 * 50))"
    by blast
  then have v4: "getCustomPrice uncategorised_item = Fin 1150"
    by (simp add: round64_Ints)
  from shirt v1 tv v2 rg v3 un v4 show ?thesis
    by blast
qed

text \<open>
  Where the exact results are doubles the rounding changes nothing: for a raw price
  that is a natural number up to \<open>2\<^sup>4\<^sup>4\<close> each case is the exact sum.
\<close>

lemma getCustomPrice_of_nat:
  assumes "price p = Fin (of_nat n)" and "n \<le> 2 ^ 44"
  shows "getCustomPrice p =
     (if contains (category p) ''clothing'' then Fin (of_nat (200 + n mod 100))
      else if contains (category p) ''electronics'' then Fin (of_nat (20000 + n * 100))
      else if contains (category p) ''jewelery'' then Fin (of_nat (5000 + n * 200))
      else Fin (of_nat (1000 + n * 50)))"
proof -
  have small: "200 + n mod 100 \<le> 2 ^ 53"
    by (rule order_trans [of _ 300]) simp_all
  from assms(2) have "n * 200 \<le> 2 ^ 44 * 200"
    by simp
  then have b200: "n * 200 \<le> 2 ^ 52" "5000 + n * 200 \<le> 2 ^ 53"
    by simp_all
  then have b100: "n * 100 \<le> 2 ^ 52" "20000 + n * 100 \<le> 2 ^ 53"
    and b50: "n * 50 \<le> 2 ^ 52" "1000 + n * 50 \<le> 2 ^ 53"
    by simp_all
  have prod: "round64 (of_nat n * 100) = Fin (of_nat (n * 100))"
    "round64 (of_nat n * 200) = Fin (of_nat (n * 200))"
    "round64 (of_nat n * 50) = Fin (of_nat (n * 50))"
    using round64_of_nat [of "n * 100"] round64_of_nat [of "n * 200"]
      round64_of_nat [of "n * 50"] b100(1) b200(1) b50(1)
    by simp_all
  have sums: "round64 (200 + of_nat (n mod 100)) = Fin (of_nat (200 + n mod 100))"
    "round64 (20000 + of_nat (n * 100)) = Fin (of_nat (20000 + n * 100))"
    "round64 (5000 + of_nat (n * 200)) = Fin (of_nat (5000 + n * 200))"
    "round64 (1000 + of_nat (n * 50)) = Fin (of_nat (1000 + n * 50))"
    using round64_of_nat [OF small] round64_of_nat [OF b100(2)] round64_of_nat [OF b200(2)]
      round64_of_nat [OF b50(2)]
    by simp_all
  show ?thesis
    unfolding getCustomPrice_def Let_def includes_iff assms(1) js_rem_of_nat
    by (simp add: prod sums del: of_nat_add of_nat_mult js_rem.simps)
qed

text \<open>
  C6. Every raw price with a clothing category is priced in \<open>[200, 300)\<close>, as the
  comment of the source says of shirts. The code computes the remainder with \<open>%\<close>,
  which is negative for a negative raw price: at \<open>-50\<close> the price is 150.
\<close>

theorem clothing_price_below_range:
  "category negative_price_shirt = [] @ ''clothing'' @ []
   \<and> price negative_price_shirt = Fin (- 50)
   \<and> getCustomPrice negative_price_shirt = Fin 150
   \<and> \<not> (200 \<le> (150::rat) \<and> (150::rat) < 300)"
proof -
  have "js_rem (Fin (- 50)) (Fin 100) = Fin (- 50)"
    by (rule js_rem_small) simp
  then show ?thesis
    by (simp add: getCustomPrice_def negative_price_shirt_def round64_Ints del: js_rem.simps)
qed

text \<open>
  At the largest raw price below 100 the sum \<open>200 + price\<close> rounds up: the price is 300.
\<close>

lemma clothing_price_rounds_to_300:
  "getCustomPrice near_hundred_shirt = Fin 300"
proof -
  have "\<bar>100 - 1 / 2 ^ 46 :: rat\<bar> < 100"
    by simp
  then have "js_rem (Fin (100 - 1 / 2 ^ 46)) (Fin 100) = Fin (100 - 1 / 2 ^ 46)"
    by (rule js_rem_small)
  then show ?thesis
    by (simp add: getCustomPrice_def near_hundred_shirt_def round64_near_300 [simplified]
        del: js_rem.simps)
qed

section \<open>Cart store\<close>

text \<open>
  \<open>product.truncate l\<close> is the cart line \<open>l\<close> without its \<open>qty\<close>: all the fields it
  took from the product. A cart line is determined by that and its \<open>qty\<close>.
\<close>

lemma truncate_qty_update: "product.truncate (l\<lparr>qty := q\<rparr>) = product.truncate (l :: cart_line)"
  by (simp add: product.defs)

lemma cart_line_eqI:
  fixes l l' :: cart_line
  assumes "product.truncate l = product.truncate l'" and "qty l = qty l'"
  shows "l = l'"
  using assms by (cases l; cases l') (simp add: product.defs)

lemma spread_qty_fields:
  "product.truncate (spread_qty p q) = p" "qty (spread_qty p q) = q"
  "item_id (spread_qty p q) = item_id p" "title (spread_qty p q) = title p"
  "price (spread_qty p q) = price p" "description (spread_qty p q) = description p"
  "category (spread_qty p q) = category p" "image_url (spread_qty p q) = image_url p"
  "item_size (spread_qty p q) = item_size p"
  by (simp_all add: spread_qty_def product.defs cart_line.defs)

lemma addToCart_found:
  assumes "\<exists>l\<in>set cart. item_id l = item_id p"
  shows "addToCart p cart =
           map (\<lambda>i. if item_id i = item_id p then i\<lparr>qty := js_add (qty i) (Fin 1)\<rparr> else i)
             cart"
proof -
  from assms have "find (\<lambda>i. item_id i = item_id p) cart \<noteq> None"
    by (auto simp: find_None_iff)
  then show ?thesis by (auto simp: addToCart_def)
qed

lemma addToCart_new:
  assumes "\<forall>l\<in>set cart. item_id l \<noteq> item_id p"
  shows "addToCart p cart = cart @ [spread_qty p (Fin 1)]"
proof -
  from assms have "find (\<lambda>i. item_id i = item_id p) cart = None"
    by (auto simp: find_None_iff)
  then show ?thesis by (simp add: addToCart_def)
qed

lemma ids_addToCart:
  "map item_id (addToCart p cart) =
     (if item_id p \<in> set (map item_id cart) then map item_id cart
      else map item_id cart @ [item_id p])"
proof (cases "\<exists>l\<in>set cart. item_id l = item_id p")
  case True
  then have "item_id p \<in> set (map item_id cart)" by force
  moreover have "map item_id (addToCart p cart) = map item_id cart"
    unfolding addToCart_found [OF True] by (induction cart) auto
  ultimately show ?thesis by simp
next
  case False
  then have new: "\<forall>l\<in>set cart. item_id l \<noteq> item_id p" by blast
  from False have "item_id p \<notin> set (map item_id cart)" by force
  then show ?thesis by (simp add: addToCart_new [OF new] spread_qty_fields)
qed

lemma ids_updateQty: "map item_id (updateQty i q cart) = map item_id cart"
  by (induction cart) (auto simp: updateQty_def)

lemma ids_removeFromCart:
  "map item_id (removeFromCart i cart) = filter (\<lambda>j. j \<noteq> i) (map item_id cart)"
  by (simp add: removeFromCart_def filter_map comp_def)

lemma unique_ids_addToCart: "unique_ids cart \<Longrightarrow> unique_ids (addToCart p cart)"
  by (simp add: unique_ids_def ids_addToCart)

lemma unique_ids_updateQty: "unique_ids cart \<Longrightarrow> unique_ids (updateQty i q cart)"
  by (simp add: unique_ids_def ids_updateQty)

lemma unique_ids_removeFromCart: "unique_ids cart \<Longrightarrow> unique_ids (removeFromCart i cart)"
  by (simp add: unique_ids_def ids_removeFromCart)

lemma unique_ids_apply_op: "unique_ids cart \<Longrightarrow> unique_ids (apply_op cart x)"
  by (cases x) (simp_all add: unique_ids_addToCart unique_ids_updateQty unique_ids_removeFromCart)

lemma unique_ids_run_ops: "unique_ids cart \<Longrightarrow> unique_ids (run_ops cart ops)"
  unfolding run_ops_def
  by (induction ops arbitrary: cart) (simp_all add: unique_ids_apply_op)

lemma id_set_addToCart:
  "item_id ` set (addToCart p cart) = insert (item_id p) (item_id ` set cart)"
proof -
  have "set (map item_id (addToCart p cart)) = insert (item_id p) (set (map item_id cart))"
    unfolding ids_addToCart by auto
  then show ?thesis by simp
qed

lemma id_set_run_adds:
  "item_id ` set (run_ops cart (map Add ps)) = item_id ` set cart \<union> item_id ` set ps"
  unfolding run_ops_def
proof (induction ps arbitrary: cart)
  case Nil
  show ?case by simp
next
  case (Cons p ps)
  show ?case by (simp add: Cons.IH id_set_addToCart)
qed

lemma length_run_adds:
  assumes "unique_ids cart"
  shows "length (run_ops cart (map Add ps)) = card (item_id ` set cart \<union> item_id ` set ps)"
proof -
  have "distinct (map item_id (run_ops cart (map Add ps)))"
    using unique_ids_run_ops [OF assms] by (simp add: unique_ids_def)
  then have "card (set (map item_id (run_ops cart (map Add ps)))) =
             length (map item_id (run_ops cart (map Add ps)))"
    by (rule distinct_card)
  then show ?thesis by (simp add: id_set_run_adds)
qed

text \<open>\<open>unique_ids\<close> says that no two positions of the cart hold the same id.\<close>

lemma unique_ids_iff:
  "unique_ids cart \<longleftrightarrow>
     (\<forall>j<length cart. \<forall>k<length cart. j \<noteq> k \<longrightarrow> item_id (cart ! j) \<noteq> item_id (cart ! k))"
  by (simp add: unique_ids_def distinct_conv_nth)

text \<open>
  C2 as stated: adding a product whose id is in the cart increments the line's \<open>qty\<close>
  by 1, for every cart. The quantity field takes any number, and \<open>qty + 1\<close> is a sum of
  doubles: at \<open>qty = 2\<^sup>5\<^sup>3\<close> the sum rounds back to \<open>2\<^sup>5\<^sup>3\<close> and the line keeps its
  quantity.
\<close>

theorem addToCart_increment_counterexample:
  "item_id shirt_again = item_id bulk_line
   \<and> qty bulk_line = Fin 9007199254740992
   \<and> qty (addToCart shirt_again [bulk_line] ! 0) = Fin 9007199254740992
   \<and> qty (addToCart shirt_again [bulk_line] ! 0) \<noteq> Fin (9007199254740992 + 1)"
proof -
  have same: "item_id shirt_again = item_id bulk_line"
    by (simp add: shirt_again_def bulk_line_def)
  then have "\<exists>l\<in>set [bulk_line]. item_id l = item_id shirt_again"
    by simp
  from addToCart_found [OF this] same
  have "qty (addToCart shirt_again [bulk_line] ! 0) = js_add (qty bulk_line) (Fin 1)"
    by simp
  then have "qty (addToCart shirt_again [bulk_line] ! 0) = Fin 9007199254740992"
    by (simp add: bulk_line_def round64_two_53_plus_1 [simplified])
  with same show ?thesis
    by (simp add: bulk_line_def)
qed

text \<open>
  C2, amended. \<open>addToCart\<close>: when a line with the product's id is in the cart, the cart
  keeps its length, that line's \<open>qty\<close> becomes the double sum \<open>qty + 1\<close>, that is the
  double nearest \<open>qty + 1\<close>, which is \<open>qty + 1\<close> itself when \<open>qty\<close> is an integer from
  \<open>-2\<^sup>5\<^sup>3\<close> to \<open>2\<^sup>5\<^sup>3 - 1\<close>; all its other fields stay as they were (whatever title,
  category or size the product passed now carries), and the lines with other ids are
  untouched. When no line has that id, one line is appended at the end, with the
  product's fields and \<open>qty = 1\<close>. The function is defined on every product and cart.
\<close>

theorem addToCart_merge_or_append:
  "((\<exists>l\<in>set cart. item_id l = item_id p) \<longrightarrow>
      length (addToCart p cart) = length cart \<and>
      (\<forall>k<length cart.
         (item_id (cart ! k) = item_id p \<longrightarrow>
            qty (addToCart p cart ! k) = js_add (qty (cart ! k)) (Fin 1) \<and>
            (\<forall>y. qty (cart ! k) = Fin y \<longrightarrow> qty (addToCart p cart ! k) = round64 (y + 1)) \<and>
            (\<forall>n. qty (cart ! k) = Fin (of_int n) \<and> - (2 ^ 53) \<le> n \<and> n < 2 ^ 53 \<longrightarrow>
                 qty (addToCart p cart ! k) = Fin (of_int (n + 1))) \<and>
            product.truncate (addToCart p cart ! k) = product.truncate (cart ! k)) \<and>
         (item_id (cart ! k) \<noteq> item_id p \<longrightarrow> addToCart p cart ! k = cart ! k)))
   \<and> ((\<forall>l\<in>set cart. item_id l \<noteq> item_id p) \<longrightarrow>
      (\<exists>l. addToCart p cart = cart @ [l] \<and> product.truncate l = p \<and> qty l = Fin 1))"
proof (intro conjI impI)
  assume found: "\<exists>l\<in>set cart. item_id l = item_id p"
  show "length (addToCart p cart) = length cart"
    by (simp add: addToCart_found [OF found])
  have exact: "round64 (of_int n + 1) = Fin (of_int (n + 1))"
    if "- (2 ^ 53) \<le> n \<and> n < 2 ^ 53" for n :: int
  proof -
    from that have "n + 1 \<le> 2 ^ 53" and "- (2 ^ 53) \<le> n + 1"
      by simp_all
    then have "\<bar>n + 1\<bar> \<le> 2 ^ 53"
      by (simp only: abs_le_iff) simp
    from round64_int [OF this] show ?thesis
      by simp
  qed
  show "\<forall>k<length cart.
         (item_id (cart ! k) = item_id p \<longrightarrow>
            qty (addToCart p cart ! k) = js_add (qty (cart ! k)) (Fin 1) \<and>
            (\<forall>y. qty (cart ! k) = Fin y \<longrightarrow> qty (addToCart p cart ! k) = round64 (y + 1)) \<and>
            (\<forall>n. qty (cart ! k) = Fin (of_int n) \<and> - (2 ^ 53) \<le> n \<and> n < 2 ^ 53 \<longrightarrow>
                 qty (addToCart p cart ! k) = Fin (of_int (n + 1))) \<and>
            product.truncate (addToCart p cart ! k) = product.truncate (cart ! k)) \<and>
         (item_id (cart ! k) \<noteq> item_id p \<longrightarrow> addToCart p cart ! k = cart ! k)"
    by (simp add: addToCart_found [OF found] truncate_qty_update exact)
next
  assume new: "\<forall>l\<in>set cart. item_id l \<noteq> item_id p"
  show "\<exists>l. addToCart p cart = cart @ [l] \<and> product.truncate l = p \<and> qty l = Fin 1"
    by (simp add: addToCart_new [OF new] spread_qty_fields)
qed

theorem addToCart_merge_or_append_witness:
  "item_id shirt_again \<in> item_id ` set two_lines
   \<and> length (addToCart shirt_again two_lines) = 2
   \<and> qty (addToCart shirt_again two_lines ! 0) = Fin 3
   \<and> product.truncate (addToCart shirt_again two_lines ! 0) = product.truncate shirt_line
   \<and> addToCart shirt_again two_lines ! 1 = ring_line
   \<and> item_id monitor \<notin> item_id ` set two_lines
   \<and> butlast (addToCart monitor two_lines) = two_lines
   \<and> product.truncate (last (addToCart monitor two_lines)) = monitor
   \<and> qty (last (addToCart monitor two_lines)) = Fin 1"
proof -
  have ids: "item_id shirt_line = 1" "item_id ring_line = 5" "item_id shirt_again = 1"
    "item_id monitor = 9" "qty shirt_line = Fin (of_int 2)"
    by (simp_all add: shirt_line_def ring_line_def shirt_again_def monitor_def)
  have found: "\<exists>l\<in>set two_lines. item_id l = item_id shirt_again"
    by (simp add: two_lines_def ids)
  have new: "\<forall>l\<in>set two_lines. item_id l \<noteq> item_id monitor"
    by (simp add: two_lines_def ids)
  from addToCart_merge_or_append [of two_lines shirt_again] found
  have merged: "length (addToCart shirt_again two_lines) = length two_lines"
    "\<forall>k<length two_lines.
         (item_id (two_lines ! k) = item_id shirt_again \<longrightarrow>
            (\<forall>n. qty (two_lines ! k) = Fin (of_int n) \<and> - (2 ^ 53) \<le> n \<and> n < 2 ^ 53 \<longrightarrow>
                 qty (addToCart shirt_again two_lines ! k) = Fin (of_int (n + 1))) \<and>
            product.truncate (addToCart shirt_again two_lines ! k) = product.truncate (two_lines ! k)) \<and>
         (item_id (two_lines ! k) \<noteq> item_id shirt_again \<longrightarrow>
            addToCart shirt_again two_lines ! k = two_lines ! k)"
    by blast+
  from merged(2) have "(\<forall>n. qty shirt_line = Fin (of_int n) \<and> - (2 ^ 53) \<le> n \<and> n < 2 ^ 53 \<longrightarrow>
                 qty (addToCart shirt_again two_lines ! 0) = Fin (of_int (n + 1)))
      \<and> product.truncate (addToCart shirt_again two_lines ! 0) = product.truncate shirt_line"
    by (simp add: two_lines_def ids(1-4))
  then have "qty shirt_line = Fin (of_int 2) \<and> - (2 ^ 53) \<le> (2::int) \<and> (2::int) < 2 ^ 53 \<longrightarrow>
                 qty (addToCart shirt_again two_lines ! 0) = Fin (of_int (2 + 1))"
    and trunc0: "product.truncate (addToCart shirt_again two_lines ! 0) = product.truncate shirt_line"
    by blast+
  with ids(5) have at0: "qty (addToCart shirt_again two_lines ! 0) = Fin 3
      \<and> product.truncate (addToCart shirt_again two_lines ! 0) = product.truncate shirt_line"
    by simp
  from merged(2) have at1: "addToCart shirt_again two_lines ! 1 = ring_line"
    by (simp add: two_lines_def ids(1-4))
  from addToCart_merge_or_append [of two_lines monitor] new
  obtain l where l: "addToCart monitor two_lines = two_lines @ [l]"
    "product.truncate l = monitor" "qty l = Fin 1"
    by blast
  from found new merged(1) at0 at1 l show ?thesis
    by (simp add: two_lines_def ids(1-4))
qed

text \<open>
  C7. \<open>updateQty\<close>: the cart keeps its length; a line with the given id gets the given
  \<open>qty\<close>, whatever number it is, and keeps its other fields; the lines with other ids
  are untouched; when no line has the id, the cart is returned as it was.
\<close>

theorem updateQty_frame:
  "length (updateQty i q cart) = length cart
   \<and> (\<forall>k<length cart.
        (item_id (cart ! k) = i \<longrightarrow>
           qty (updateQty i q cart ! k) = q \<and>
           product.truncate (updateQty i q cart ! k) = product.truncate (cart ! k)) \<and>
        (item_id (cart ! k) \<noteq> i \<longrightarrow> updateQty i q cart ! k = cart ! k))
   \<and> (i \<notin> item_id ` set cart \<longrightarrow> updateQty i q cart = cart)"
proof (intro conjI impI)
  show "length (updateQty i q cart) = length cart"
    by (simp add: updateQty_def)
  show "\<forall>k<length cart.
        (item_id (cart ! k) = i \<longrightarrow>
           qty (updateQty i q cart ! k) = q \<and>
           product.truncate (updateQty i q cart ! k) = product.truncate (cart ! k)) \<and>
        (item_id (cart ! k) \<noteq> i \<longrightarrow> updateQty i q cart ! k = cart ! k)"
    by (simp add: updateQty_def truncate_qty_update)
  assume "i \<notin> item_id ` set cart"
  then have "\<forall>l\<in>set cart. (if item_id l = i then l\<lparr>qty := q\<rparr> else l) = l"
    by auto
  then show "updateQty i q cart = cart"
    unfolding updateQty_def by (simp add: map_idI)
qed

theorem updateQty_frame_witness:
  "length (updateQty 5 (Fin (- 3)) two_lines) = 2
   \<and> qty (updateQty 5 (Fin (- 3)) two_lines ! 1) = Fin (- 3)
   \<and> product.truncate (updateQty 5 (Fin (- 3)) two_lines ! 1) = product.truncate ring_line
   \<and> updateQty 5 (Fin (- 3)) two_lines ! 0 = shirt_line
   \<and> 8 \<notin> item_id ` set two_lines
   \<and> updateQty 8 (Fin 0) two_lines = two_lines"
proof -
  have ids: "item_id shirt_line = 1" "item_id ring_line = 5"
    by (simp_all add: shirt_line_def ring_line_def)
  have absent: "8 \<notin> item_id ` set two_lines"
    by (simp add: two_lines_def ids)
  from updateQty_frame [of 5 "Fin (- 3)" two_lines]
  have len: "length (updateQty 5 (Fin (- 3)) two_lines) = length two_lines"
    and each: "\<forall>k<length two_lines.
        (item_id (two_lines ! k) = 5 \<longrightarrow>
           qty (updateQty 5 (Fin (- 3)) two_lines ! k) = Fin (- 3) \<and>
           product.truncate (updateQty 5 (Fin (- 3)) two_lines ! k) = product.truncate (two_lines ! k)) \<and>
        (item_id (two_lines ! k) \<noteq> 5 \<longrightarrow> updateQty 5 (Fin (- 3)) two_lines ! k = two_lines ! k)"
    by blast+
  from each have at1: "qty (updateQty 5 (Fin (- 3)) two_lines ! 1) = Fin (- 3)
     \<and> product.truncate (updateQty 5 (Fin (- 3)) two_lines ! 1) = product.truncate ring_line"
    by (simp add: two_lines_def ids)
  from each have at0: "updateQty 5 (Fin (- 3)) two_lines ! 0 = shirt_line"
    by (simp add: two_lines_def ids)
  from updateQty_frame [of 8 "Fin 0" two_lines] absent
  have same: "updateQty 8 (Fin 0) two_lines = two_lines"
    by blast
  from len at1 at0 absent same show ?thesis
    by (simp add: two_lines_def)
qed

text \<open>
  C8. \<open>removeFromCart\<close>: no line with the id remains; a cart without the id is returned
  as it was; the lines that remain are exactly the lines with other ids, in their
  order.
\<close>

theorem removeFromCart_spec:
  "i \<notin> item_id ` set (removeFromCart i cart)
   \<and> (i \<notin> item_id ` set cart \<longrightarrow> removeFromCart i cart = cart)
   \<and> (\<forall>l\<in>set cart. item_id l \<noteq> i \<longrightarrow> l \<in> set (removeFromCart i cart))
   \<and> set (removeFromCart i cart) \<subseteq> set cart
   \<and> subseq (removeFromCart i cart) cart"
proof (intro conjI impI)
  show "i \<notin> item_id ` set (removeFromCart i cart)"
    by (auto simp: removeFromCart_def)
  show "\<forall>l\<in>set cart. item_id l \<noteq> i \<longrightarrow> l \<in> set (removeFromCart i cart)"
    by (simp add: removeFromCart_def)
  show "set (removeFromCart i cart) \<subseteq> set cart"
    by (auto simp: removeFromCart_def)
  show "subseq (removeFromCart i cart) cart"
    by (simp add: removeFromCart_def)
  assume "i \<notin> item_id ` set cart"
  then have "\<forall>l\<in>set cart. item_id l \<noteq> i"
    by auto
  then show "removeFromCart i cart = cart"
    unfolding removeFromCart_def by (simp only: filter_True)
qed

theorem removeFromCart_spec_witness:
  "1 \<notin> item_id ` set (removeFromCart 1 two_lines)
   \<and> ring_line \<in> set (removeFromCart 1 two_lines)
   \<and> 8 \<notin> item_id ` set two_lines
   \<and> removeFromCart 8 two_lines = two_lines"
proof -
  have ids: "item_id shirt_line = 1" "item_id ring_line = 5"
    by (simp_all add: shirt_line_def ring_line_def)
  have absent: "8 \<notin> item_id ` set two_lines"
    by (simp add: two_lines_def ids)
  from removeFromCart_spec [of 1 two_lines]
  have gone: "1 \<notin> item_id ` set (removeFromCart 1 two_lines)"
    and kept: "\<forall>l\<in>set two_lines. item_id l \<noteq> 1 \<longrightarrow> l \<in> set (removeFromCart 1 two_lines)"
    by blast+
  from kept have ring: "ring_line \<in> set (removeFromCart 1 two_lines)"
    by (simp add: two_lines_def ids)
  from removeFromCart_spec [of 8 two_lines] absent
  have "removeFromCart 8 two_lines = two_lines"
    by blast
  with gone ring absent show ?thesis by blast
qed

text \<open>
  C3. A cart without two lines of the same id stays so after \<open>addToCart\<close>, \<open>updateQty\<close>,
  \<open>removeFromCart\<close> and after any run of such calls. After a run of \<open>addToCart\<close> calls
  the cart has as many lines as there are distinct ids among its first lines and the
  products added; from the empty cart, as many as distinct ids added.
\<close>

theorem unique_ids_invariant:
  assumes "unique_ids cart"
  shows "unique_ids (addToCart p cart)
         \<and> unique_ids (updateQty i q cart)
         \<and> unique_ids (removeFromCart i cart)
         \<and> unique_ids (run_ops cart ops)
         \<and> length (run_ops cart (map Add ps)) = card (item_id ` set cart \<union> item_id ` set ps)
         \<and> unique_ids (run_ops [] (map Add ps))
         \<and> length (run_ops [] (map Add ps)) = card (item_id ` set ps)"
proof -
  have empty: "unique_ids []"
    by (simp add: unique_ids_def)
  from length_run_adds [OF empty, of ps]
  have "length (run_ops [] (map Add ps)) = card (item_id ` set ps)"
    by simp
  with assms empty show ?thesis
    by (simp add: unique_ids_addToCart unique_ids_updateQty unique_ids_removeFromCart
        unique_ids_run_ops length_run_adds)
qed

theorem unique_ids_invariant_witness:
  "unique_ids two_lines
   \<and> unique_ids (addToCart shirt_again two_lines)
   \<and> unique_ids (run_ops two_lines [Add shirt_again, Add monitor, Update 5 (Fin 0), Remove 1])
   \<and> length (run_ops two_lines (map Add [shirt_again, monitor, shirt_again])) = 3
   \<and> length (run_ops [] (map Add [shirt_again, monitor, shirt_again])) = 2"
proof -
  have ids: "item_id shirt_line = 1" "item_id ring_line = 5"
    by (simp_all add: shirt_line_def ring_line_def)
  have pre: "unique_ids two_lines"
    by (simp add: unique_ids_def two_lines_def ids)
  have c1: "card (item_id ` set two_lines \<union> item_id ` set [shirt_again, monitor, shirt_again]) = 3"
    by code_simp
  have c2: "card (item_id ` set [shirt_again, monitor, shirt_again]) = 2"
    by code_simp
  from unique_ids_invariant [OF pre, of shirt_again 0 "Fin 0"
      "[Add shirt_again, Add monitor, Update 5 (Fin 0), Remove 1]" "[shirt_again, monitor, shirt_again]"]
    pre c1 c2
  show ?thesis by simp
qed

section \<open>Cart total\<close>

lemma total_snoc:
  "total (cart @ [l]) = js_add (total cart) (js_mul (getCustomPrice l) (qty l))"
  by (simp add: total_def)

lemma js_rem_50: "js_rem (Fin 50) (Fin 100) = Fin 50"
  by (rule js_rem_small) simp

lemma price_250:
  assumes "price l = Fin 50" and "category l = ''clothing''"
  shows "getCustomPrice l = Fin 250"
  using assms js_rem_50 by (simp add: getCustomPrice_def round64_Ints del: js_rem.simps)

text \<open>
  A sum of products of natural numbers is a non-negative integer, and each partial
  sum is at most the whole.
\<close>

lemma nat_lines_sum:
  assumes "\<forall>l\<in>set cart. \<exists>n k::nat. getCustomPrice l = Fin (of_nat n) \<and> qty l = Fin (of_nat k)"
  shows "(\<Sum>l\<leftarrow>cart. fin_value (getCustomPrice l) * fin_value (qty l)) \<in> \<int>
         \<and> 0 \<le> (\<Sum>l\<leftarrow>cart. fin_value (getCustomPrice l) * fin_value (qty l))"
  using assms
proof (induction cart)
  case Nil
  show ?case by simp
next
  case (Cons l cart)
  then obtain n k :: nat where "getCustomPrice l = Fin (of_nat n)" "qty l = Fin (of_nat k)"
    by auto
  moreover from Cons have "(\<Sum>l\<leftarrow>cart. fin_value (getCustomPrice l) * fin_value (qty l)) \<in> \<int>
         \<and> 0 \<le> (\<Sum>l\<leftarrow>cart. fin_value (getCustomPrice l) * fin_value (qty l))"
    by simp
  ultimately show ?case by simp
qed

lemma total_exact_nat:
  assumes "\<forall>l\<in>set cart. \<exists>n k::nat. getCustomPrice l = Fin (of_nat n) \<and> qty l = Fin (of_nat k)"
    and "(\<Sum>l\<leftarrow>cart. fin_value (getCustomPrice l) * fin_value (qty l)) \<le> 2 ^ 53"
  shows "total cart = Fin (\<Sum>l\<leftarrow>cart. fin_value (getCustomPrice l) * fin_value (qty l))"
  using assms
proof (induction cart rule: rev_induct)
  case Nil
  show ?case by (simp add: total_def)
next
  case (snoc l cart)
  let ?S = "\<Sum>l\<leftarrow>cart. fin_value (getCustomPrice l) * fin_value (qty l)"
  from snoc.prems(1) obtain n k :: nat
    where l: "getCustomPrice l = Fin (of_nat n)" "qty l = Fin (of_nat k)"
    by auto
  from snoc.prems(1)
  have lines: "\<forall>l\<in>set cart. \<exists>n k::nat. getCustomPrice l = Fin (of_nat n) \<and> qty l = Fin (of_nat k)"
    by simp
  from nat_lines_sum [OF lines] have S: "?S \<in> \<int>" "0 \<le> ?S"
    by simp_all
  from snoc.prems(2) l have whole: "?S + of_nat n * of_nat k \<le> 2 ^ 53"
    by simp
  have nk: "0 \<le> (of_nat n * of_nat k :: rat)"
    by simp
  from whole S(2) nk have part: "?S \<le> 2 ^ 53" and prod: "of_nat n * of_nat k \<le> (2 ^ 53 :: rat)"
    by linarith+
  from snoc.IH [OF lines part] have before: "total cart = Fin ?S" .
  have "round64 (of_nat n * of_nat k) = Fin (of_nat n * of_nat k)"
    using prod nk by (intro round64_Ints) simp_all
  moreover have "round64 (?S + of_nat n * of_nat k) = Fin (?S + of_nat n * of_nat k)"
    using whole S nk by (intro round64_Ints) simp_all
  ultimately show ?case
    by (simp add: total_snoc before l)
qed

text \<open>
  C4 as stated: the total is the sum over the lines of price times quantity. The code
  adds doubles from the left: with a line of 250 at quantity \<open>2\<^sup>5\<^sup>3\<close> and a line of 250
  at quantity 1 the total is 6 above the sum.
\<close>

theorem total_exact_counterexample:
  "getCustomPrice bulk_line = Fin 250 \<and> qty bulk_line = Fin 9007199254740992
   \<and> getCustomPrice single_line = Fin 250 \<and> qty single_line = Fin 1
   \<and> total bulk_cart = Fin 2251799813685248256
   \<and> total bulk_cart \<noteq> Fin (250 * 9007199254740992 + 250 * 1)"
proof -
  have prices: "getCustomPrice bulk_line = Fin 250" "getCustomPrice single_line = Fin 250"
    by (rule price_250; simp add: bulk_line_def single_line_def)+
  have qtys: "qty bulk_line = Fin 9007199254740992" "qty single_line = Fin 1"
    by (simp_all add: bulk_line_def single_line_def)
  have "total bulk_cart = Fin 2251799813685248256"
    by (simp add: total_def bulk_cart_def prices qtys round64_Ints
        round64_bulk_product [simplified] round64_bulk_sum [simplified])
  with prices qtys show ?thesis
    by simp
qed

text \<open>
  C4, amended. The total is 0 for the empty cart, and each further line adds, in
  double arithmetic, its price times its quantity to the total of the lines before
  it: the product is rounded to the nearest double, then the sum is. When the prices
  and quantities are natural numbers and the exact sum over the lines of
  \<open>getCustomPrice line * qty line\<close> is at most \<open>2\<^sup>5\<^sup>3\<close>, the total is that sum. For the
  one-line cart with id 1, raw price 50, category "clothing" and qty 2 (whatever its
  other fields) it is \<open>(200 + 50) * 2 = 500\<close>.
\<close>

theorem total_rounded_sum:
  "total [] = Fin 0
   \<and> total (cart @ [l]) = js_add (total cart) (js_mul (getCustomPrice l) (qty l))
   \<and> (\<forall>s a q. total cart = Fin s \<and> getCustomPrice l = Fin a \<and> qty l = Fin q \<longrightarrow>
         total (cart @ [l]) = plus_rounded s (round64 (a * q)))
   \<and> ((\<forall>l\<in>set cart. \<exists>n k::nat. getCustomPrice l = Fin (of_nat n) \<and> qty l = Fin (of_nat k))
        \<and> (\<Sum>l\<leftarrow>cart. fin_value (getCustomPrice l) * fin_value (qty l)) \<le> 2 ^ 53 \<longrightarrow>
       total cart = Fin (\<Sum>l\<leftarrow>cart. fin_value (getCustomPrice l) * fin_value (qty l)))
   \<and> total [\<lparr>item_id = 1, title = t, price = Fin 50, description = d, category = ''clothing'',
              image_url = u, item_size = z, qty = Fin 2\<rparr>] = Fin 500"
proof (intro conjI impI allI)
  show "total [] = Fin 0"
    by (simp add: total_def)
  show "total (cart @ [l]) = js_add (total cart) (js_mul (getCustomPrice l) (qty l))"
    by (rule total_snoc)
  show "total (cart @ [l]) = plus_rounded s (round64 (a * q))"
    if "total cart = Fin s \<and> getCustomPrice l = Fin a \<and> qty l = Fin q" for s a q
    using that by (simp add: total_snoc js_add_Fin_left del: js_add.simps)
  show "total cart = Fin (\<Sum>l\<leftarrow>cart. fin_value (getCustomPrice l) * fin_value (qty l))"
    if "(\<forall>l\<in>set cart. \<exists>n k::nat. getCustomPrice l = Fin (of_nat n) \<and> qty l = Fin (of_nat k))
        \<and> (\<Sum>l\<leftarrow>cart. fin_value (getCustomPrice l) * fin_value (qty l)) \<le> 2 ^ 53"
    using that total_exact_nat by blast
  have "getCustomPrice \<lparr>item_id = 1, title = t, price = Fin 50, description = d,
          category = ''clothing'', image_url = u, item_size = z, qty = Fin 2\<rparr> = Fin 250"
    by (rule price_250) simp_all
  then show "total [\<lparr>item_id = 1, title = t, price = Fin 50, description = d,
          category = ''clothing'', image_url = u, item_size = z, qty = Fin 2\<rparr>] = Fin 500"
    by (simp add: total_def round64_Ints)
qed

theorem total_rounded_sum_witness:
  "getCustomPrice shirt_line = Fin (of_nat 250) \<and> qty shirt_line = Fin (of_nat 2)
   \<and> getCustomPrice ring_line = Fin (of_nat 7000) \<and> qty ring_line = Fin (of_nat 1)
   \<and> (250 * 2 + 7000 * 1 :: rat) \<le> 2 ^ 53
   \<and> total two_lines = Fin 7500
   \<and> total [shirt_line] = Fin 500
   \<and> total ([shirt_line] @ [ring_line]) = round64 (500 + 7000)"
proof -
  have shirt: "getCustomPrice shirt_line = Fin (of_nat 250)" "qty shirt_line = Fin (of_nat 2)"
    using price_250 [of shirt_line] by (simp_all add: shirt_line_def)
  have rng: "getCustomPrice ring_line = Fin (of_nat 7000)" "qty ring_line = Fin (of_nat 1)"
    by (simp_all add: getCustomPrice_def ring_line_def round64_Ints)
  have nat_lines: "\<forall>l\<in>set two_lines. \<exists>n k::nat. getCustomPrice l = Fin (of_nat n) \<and> qty l = Fin (of_nat k)"
    unfolding two_lines_def using shirt rng by (metis empty_iff empty_set set_ConsD)
  have sum: "(\<Sum>l\<leftarrow>two_lines. fin_value (getCustomPrice l) * fin_value (qty l)) = 7500"
    by (simp add: two_lines_def shirt rng)
  from total_rounded_sum [of two_lines ring_line] nat_lines sum
  have all: "total two_lines = Fin 7500"
    by simp
  from total_rounded_sum [of "[shirt_line]" ring_line]
  have one: "total [shirt_line] = Fin 500"
    by (simp add: shirt_line_def)
  from total_rounded_sum [of "[shirt_line]" ring_line] one rng
  have step: "total ([shirt_line] @ [ring_line]) = round64 (500 + 7000)"
    by (simp add: round64_Ints)
  from shirt rng all one step show ?thesis
    by simp
qed

section \<open>Checkout\<close>

text \<open>
  C5. \<open>submitOrder\<close> reports the first failing rule of five, in this order: a shipping
  field is empty; the email has no "@" character; the cart is empty; the method is
  "upi" and the UPI id is shorter than 5; the method is "card" and the number is
  shorter than 12, the expiry is empty or the cvv is shorter than 3. When none fails
  it succeeds, with one message for "cod" and another, different one for the other
  methods. With an empty name and an empty cart the report is the one for the
  shipping details.
\<close>

theorem submitOrder_first_failing_rule:
  "submitOrder form cart payment upi crd =
     (if name form = [] \<or> email form = [] \<or> address form = [] then
        Inl ''Please fill all address details''
      else if CHR ''@'' \<notin> set (email form) then
        Inl ''Invalid email''
      else if cart = [] then
        Inl ''Cart is empty''
      else if payment = ''upi'' \<and> length upi < 5 then
        Inl ''Enter valid UPI ID''
      else if payment = ''card'' \<and>
              (length (number crd) < 12 \<or> expiry crd = [] \<or> length (cvv crd) < 3) then
        Inl ''Enter valid card details''
      else if payment = ''cod'' then
        Inr ''Order placed successfully (Cash on Delivery)''
      else
        Inr ''Payment successful! Order placed'')
   \<and> ''Order placed successfully (Cash on Delivery)'' \<noteq> ''Payment successful! Order placed''
   \<and> (name form = [] \<and> cart = [] \<longrightarrow>
        submitOrder form cart payment upi crd = Inl ''Please fill all address details'')"
proof (intro conjI impI)
  show "submitOrder form cart payment upi crd =
     (if name form = [] \<or> email form = [] \<or> address form = [] then
        Inl ''Please fill all address details''
      else if CHR ''@'' \<notin> set (email form) then
        Inl ''Invalid email''
      else if cart = [] then
        Inl ''Cart is empty''
      else if payment = ''upi'' \<and> length upi < 5 then
        Inl ''Enter valid UPI ID''
      else if payment = ''card'' \<and>
              (length (number crd) < 12 \<or> expiry crd = [] \<or> length (cvv crd) < 3) then
        Inl ''Enter valid card details''
      else if payment = ''cod'' then
        Inr ''Order placed successfully (Cash on Delivery)''
      else
        Inr ''Payment successful! Order placed'')"
    unfolding submitOrder_def includes_char by auto
  show "''Order placed successfully (Cash on Delivery)'' \<noteq> ''Payment successful! Order placed''"
    by simp
  assume "name form = [] \<and> cart = []"
  then show "submitOrder form cart payment upi crd = Inl ''Please fill all address details''"
    by (simp add: submitOrder_def)
qed

theorem submitOrder_first_failing_rule_witness:
  "name nameless_form = [] \<and> ([] :: cart) = []
   \<and> submitOrder nameless_form [] ''cod'' [] blank_card = Inl ''Please fill all address details''
   \<and> submitOrder filled_form two_lines ''upi'' ''abc'' blank_card = Inl ''Enter valid UPI ID''"
proof -
  have pre: "name nameless_form = [] \<and> ([] :: cart) = []"
    by (simp add: nameless_form_def)
  from submitOrder_first_failing_rule [of nameless_form "[]" "''cod''" "[]" blank_card] pre
  have first: "submitOrder nameless_form [] ''cod'' [] blank_card
                = Inl ''Please fill all address details''"
    by blast
  from submitOrder_first_failing_rule [of filled_form two_lines "''upi''" "''abc''" blank_card]
  have "submitOrder filled_form two_lines ''upi'' ''abc'' blank_card = Inl ''Enter valid UPI ID''"
    by (simp add: filled_form_def two_lines_def)
  with pre first show ?thesis by blast
qed

text \<open>
  C9. When the method is neither "upi" nor "card", the result of \<open>submitOrder\<close> does not
  depend on the UPI id or on the card fields: two calls that differ only there return
  the same alert.
\<close>

theorem submitOrder_unused_payment_fields:
  assumes "payment \<noteq> ''upi''" and "payment \<noteq> ''card''"
  shows "submitOrder form cart payment upi1 crd1 = submitOrder form cart payment upi2 crd2"
  using assms by (simp add: submitOrder_def)

theorem submitOrder_unused_payment_fields_witness:
  "''cod'' \<noteq> ''upi'' \<and> ''cod'' \<noteq> ''card''
   \<and> submitOrder filled_form two_lines ''cod'' ''abc'' blank_card
       = submitOrder filled_form two_lines ''cod'' ''someone@upi'' some_card"
proof -
  have m: "''cod'' \<noteq> ''upi''" "''cod'' \<noteq> ''card''"
    by simp_all
  from submitOrder_unused_payment_fields [OF m] m show ?thesis
    by blast
qed

text \<open>
  C10. For every method other than "upi" and "card", documented or not, an order with
  non-empty name, email and address, an "@" in the email and a non-empty cart is
  accepted; the message is the cash-on-delivery one exactly when the method is "cod",
  and the payment-successful one for every other method.
\<close>

theorem submitOrder_other_methods_accepted:
  assumes "payment \<noteq> ''upi''" and "payment \<noteq> ''card''"
    and "name form \<noteq> []" and "email form \<noteq> []" and "address form \<noteq> []"
    and "CHR ''@'' \<in> set (email form)"
    and "cart \<noteq> []"
  shows "submitOrder form cart payment upi crd =
           Inr (if payment = ''cod'' then ''Order placed successfully (Cash on Delivery)''
                else ''Payment successful! Order placed'')
         \<and> (submitOrder form cart payment upi crd
               = Inr ''Order placed successfully (Cash on Delivery)'' \<longleftrightarrow> payment = ''cod'')"
proof -
  from assms(6) have "includes_str (email form) ''@''"
    by (simp only: includes_char)
  with assms show ?thesis
    by (simp add: submitOrder_def)
qed

theorem submitOrder_other_methods_accepted_witness:
  "''paypal'' \<noteq> ''upi'' \<and> ''paypal'' \<noteq> ''card''
   \<and> name filled_form \<noteq> [] \<and> email filled_form \<noteq> [] \<and> address filled_form \<noteq> []
   \<and> CHR ''@'' \<in> set (email filled_form) \<and> two_lines \<noteq> []
   \<and> submitOrder filled_form two_lines ''paypal'' [] blank_card
       = Inr ''Payment successful! Order placed''"
proof -
  have m: "''paypal'' \<noteq> ''upi''" "''paypal'' \<noteq> ''card''"
    by simp_all
  have f: "name filled_form \<noteq> []" "email filled_form \<noteq> []" "address filled_form \<noteq> []"
    "CHR ''@'' \<in> set (email filled_form)"
    by (simp_all add: filled_form_def)
  have c: "two_lines \<noteq> []"
    by (simp add: two_lines_def)
  from submitOrder_other_methods_accepted [OF m f c, of "[]" blank_card]
  have "submitOrder filled_form two_lines ''paypal'' [] blank_card
          = Inr ''Payment successful! Order placed''"
    by simp
  with m f c show ?thesis by blast
qed

end
